theory Spec2Isabelle
  imports Complex_Main
begin

section \<open>Python values used by the ledger\<close>

text \<open>
  The only exception the ledger code can raise on well-typed arguments is the
  \<open>IndexError\<close> of a list subscript. Subscripts and slices follow Python: a negative
  subscript counts from the end, a slice bound is shifted by the length when negative
  and then clipped. \<open>'0' * n\<close> is the empty string for \<open>n \<le> 0\<close>.
\<close>

datatype py_error = IndexError

definition py_index :: "'x list \<Rightarrow> int \<Rightarrow> py_error + 'x" where
  "py_index xs i =
     (if 0 \<le> i \<and> i < int (length xs) then Inr (xs ! nat i)
      else if i < 0 \<and> - int (length xs) \<le> i then Inr (xs ! nat (int (length xs) + i))
      else Inl IndexError)"

definition py_upto :: "'x list \<Rightarrow> int \<Rightarrow> 'x list" where
  "py_upto xs n = take (nat (if n < 0 then int (length xs) + n else n)) xs"

definition py_from :: "'x list \<Rightarrow> int \<Rightarrow> 'x list" where
  "py_from xs n = drop (nat (if n < 0 then int (length xs) + n else n)) xs"

definition str_mul :: "char \<Rightarrow> int \<Rightarrow> string" where
  "str_mul c n = replicate (nat n) c"

section \<open>Block (block.py)\<close>

text \<open>
  The payload of a block is opaque to the ledger. The ledger itself builds two shapes:
  the genesis message and the mined record of transactions and miner; anything else
  arrives from outside.
\<close>

datatype 'a payload =
    Message string
  | Mined (transactions: "'a list") (miner: string)
  | Opaque 'a

record 'a block =
  index :: int
  timestamp :: real
  data :: "'a payload"
  previous_hash :: string
  nonce :: int
  hash :: string

text \<open>
  \<open>calculate_hash\<close> is SHA-256 (hashlib) over the sorted-key JSON of the five fields
  other than \<open>hash\<close>. The digest is a library function: it is a parameter \<open>H\<close> of the
  model, a function of exactly those five fields.
\<close>

type_synonym 'a digest = "int \<Rightarrow> real \<Rightarrow> 'a payload \<Rightarrow> string \<Rightarrow> int \<Rightarrow> string"

definition calculate_hash :: "'a digest \<Rightarrow> 'a block \<Rightarrow> string" where
  "calculate_hash H b = H (index b) (timestamp b) (data b) (previous_hash b) (nonce b)"

text \<open>The constructor stores the hash of the fields it was given.\<close>

definition Block_init :: "'a digest \<Rightarrow> int \<Rightarrow> real \<Rightarrow> 'a payload \<Rightarrow> string \<Rightarrow> int \<Rightarrow> 'a block" where
  "Block_init H i t d p n =
     (let b = \<lparr>index = i, timestamp = t, data = d, previous_hash = p, nonce = n, hash = []\<rparr>
      in b\<lparr>hash := calculate_hash H b\<rparr>)"

text \<open>The test of the mining loop: \<open>hash[:difficulty] == '0' * difficulty\<close>.\<close>

definition meets_target :: "int \<Rightarrow> string \<Rightarrow> bool" where
  "meets_target d h = (py_upto h d = str_mul (CHR ''0'') d)"

text \<open>
  \<open>mine_block\<close> is a \<open>while\<close> loop with no bound: the search may run forever, which is
  the value \<open>None\<close>.
\<close>

partial_function (option) mine_block :: "'a digest \<Rightarrow> int \<Rightarrow> 'a block \<Rightarrow> 'a block option" where
  "mine_block H d b =
     (if meets_target d (hash b) then Some b
      else mine_block H d
             (let b' = b\<lparr>nonce := nonce b + 1\<rparr> in b'\<lparr>hash := calculate_hash H b'\<rparr>))"

definition is_valid :: "'a digest \<Rightarrow> 'a block \<Rightarrow> bool" where
  "is_valid H b = (hash b = calculate_hash H b)"

section \<open>Blockchain (chain.py)\<close>

record 'a blockchain =
  chain :: "'a block list"
  difficulty :: int
  pending_data :: "'a list"

definition genesis_block :: "'a digest \<Rightarrow> real \<Rightarrow> 'a block" where
  "genesis_block H now = Block_init H 0 now (Message ''Genesis Block'') (str_mul (CHR ''0'') 64) 0"

text \<open>The constructor mines the genesis block; \<open>now\<close> is the reading of the clock.\<close>

definition Blockchain_init :: "'a digest \<Rightarrow> int \<Rightarrow> real \<Rightarrow> 'a blockchain option" where
  "Blockchain_init H d now =
     (case mine_block H d (genesis_block H now) of
        None \<Rightarrow> None
      | Some g \<Rightarrow> Some \<lparr>chain = [g], difficulty = d, pending_data = []\<rparr>)"

definition latest_block :: "'a blockchain \<Rightarrow> py_error + 'a block" where
  "latest_block self = py_index (chain self) (- 1)"

definition add_data :: "'a blockchain \<Rightarrow> 'a \<Rightarrow> 'a blockchain" where
  "add_data self x = self\<lparr>pending_data := pending_data self @ [x]\<rparr>"

definition is_valid_block :: "'a digest \<Rightarrow> 'a blockchain \<Rightarrow> 'a block \<Rightarrow> 'a block \<Rightarrow> bool" where
  "is_valid_block H self b previous_block =
     (if index b \<noteq> index previous_block + 1 then False
      else if previous_hash b \<noteq> hash previous_block then False
      else if hash b \<noteq> calculate_hash H b then False
      else if py_upto (hash b) (difficulty self) \<noteq> str_mul (CHR ''0'') (difficulty self) then False
      else True)"

text \<open>
  \<open>is_valid_chain\<close>: the loop over \<open>range(1, len(chain))\<close> returns False at the first pair
  that fails, True when none does.
\<close>

definition is_valid_chain :: "'a digest \<Rightarrow> 'a blockchain \<Rightarrow> 'a block list \<Rightarrow> bool" where
  "is_valid_chain H self c =
     (if length c = 0 then False
      else list_all (\<lambda>i. is_valid_block H self (c ! i) (c ! (i - 1))) [1..<length c])"

text \<open>
  \<open>mine_pending_data\<close>: the outer option is the unbounded search, the sum is the
  \<open>IndexError\<close> of \<open>latest_block\<close> on an empty chain, raised before anything is changed.
\<close>

definition mine_pending_data ::
  "'a digest \<Rightarrow> real \<Rightarrow> string \<Rightarrow> 'a blockchain \<Rightarrow> (py_error + ('a block option \<times> 'a blockchain)) option" where
  "mine_pending_data H now miner_address self =
     (if pending_data self = [] then Some (Inr (None, self))
      else case latest_block self of
        Inl e \<Rightarrow> Some (Inl e)
      | Inr lb \<Rightarrow>
          (case mine_block H (difficulty self)
                  (Block_init H (int (length (chain self))) now
                     (Mined (pending_data self) miner_address) (hash lb) 0) of
             None \<Rightarrow> None
           | Some new_block \<Rightarrow>
               Some (Inr (Some new_block,
                          self\<lparr>chain := chain self @ [new_block], pending_data := []\<rparr>))))"

definition add_block :: "'a digest \<Rightarrow> 'a blockchain \<Rightarrow> 'a block \<Rightarrow> py_error + (bool \<times> 'a blockchain)" where
  "add_block H self b =
     (case latest_block self of
        Inl e \<Rightarrow> Inl e
      | Inr lb \<Rightarrow>
          if \<not> is_valid_block H self b lb then Inr (False, self)
          else Inr (True, self\<lparr>chain := chain self @ [b]\<rparr>))"

definition replace_chain :: "'a digest \<Rightarrow> 'a blockchain \<Rightarrow> 'a block list \<Rightarrow> bool \<times> 'a blockchain" where
  "replace_chain H self new_chain =
     (if length new_chain \<le> length (chain self) then (False, self)
      else if \<not> is_valid_chain H self new_chain then (False, self)
      else (True, self\<lparr>chain := new_chain\<rparr>))"

definition fork_detection_and_resolution ::
  "'a digest \<Rightarrow> 'a blockchain \<Rightarrow> 'a block \<Rightarrow> py_error + ((bool \<times> string) \<times> 'a blockchain)" where
  "fork_detection_and_resolution H self received_block =
     (if index received_block < int (length (chain self)) then
        (case py_index (chain self) (index received_block) of
           Inl e \<Rightarrow> Inl e
         | Inr existing_block \<Rightarrow>
             if hash existing_block = hash received_block
             then Inr ((False, ''Block already exists in our chain''), self)
             else if index received_block = 0
             then Inr ((False, ''Genesis block conflict, keeping our chain''), self)
             else (case py_index (chain self) (index received_block - 1) of
                     Inl e \<Rightarrow> Inl e
                   | Inr predecessor \<Rightarrow>
                       if previous_hash received_block = hash predecessor
                       then Inr ((False, ''Fork detected, need full chain comparison''), self)
                       else Inr ((False, ''Unknown state in fork resolution''), self)))
      else if index received_block = int (length (chain self)) then
        (case latest_block self of
           Inl e \<Rightarrow> Inl e
         | Inr lb \<Rightarrow>
             if is_valid_block H self received_block lb
             then Inr ((True, ''Block added to chain''), self\<lparr>chain := chain self @ [received_block]\<rparr>)
             else Inr ((False, ''Invalid next block''), self))
      else Inr ((False, ''Need to sync blocks''), self))"

section \<open>ForkHandler (fork_handler.py)\<close>

text \<open>
  A fork handler holds a reference to one blockchain and nothing else: its methods take
  the blockchain \<open>bc\<close> and return it updated. Candidate chains arrive as lists of block
  dictionaries; \<open>Block.from_dict\<close> on a dictionary with all six keys yields the block
  with exactly those six values (the stored hash is kept, not recomputed), so a candidate
  is a list of blocks here.
\<close>

text \<open>
  \<open>resolve_fork\<close> builds a scratch \<open>Blockchain(difficulty)\<close> for every candidate it
  examines, empties its chain, and appends the candidate's blocks one by one as they pass
  \<open>is_valid_block\<close> against \<open>latest_block\<close> of the scratch chain. The scratch chain
  holds the candidate's first block before the loop starts, so \<open>latest_block\<close> is its
  last element there. The candidate has at least one block when it is examined, since it
  is longer than the best length so far.
\<close>

function validate_loop :: "'a digest \<Rightarrow> 'a blockchain \<Rightarrow> 'a block list \<Rightarrow> nat \<Rightarrow> bool" where
  "validate_loop H temp_blockchain candidate_chain i =
     (if i < length candidate_chain then
        (if \<not> is_valid_block H temp_blockchain (candidate_chain ! i) (last (chain temp_blockchain))
         then False
         else validate_loop H
                (temp_blockchain\<lparr>chain := chain temp_blockchain @ [candidate_chain ! i]\<rparr>)
                candidate_chain (Suc i))
      else True)"
  by pat_completeness auto
termination
  by (relation "measure (\<lambda>(H, t, c, i). length c - i)") auto

definition candidate_is_valid :: "'a digest \<Rightarrow> 'a blockchain \<Rightarrow> 'a block list \<Rightarrow> bool" where
  "candidate_is_valid H temp_blockchain candidate_chain =
     (if index (candidate_chain ! 0) \<noteq> 0
         \<or> previous_hash (candidate_chain ! 0) \<noteq> str_mul (CHR ''0'') 64
      then False
      else validate_loop H
             (temp_blockchain\<lparr>chain := chain temp_blockchain @ [candidate_chain ! 0]\<rparr>)
             candidate_chain 1)"

text \<open>
  The loop over the candidates carries \<open>longest_valid_chain\<close> and
  \<open>longest_chain_length\<close>. The scratch blockchain's constructor mines a genesis block
  that is thrown away at once; its search is unbounded like any other, so the loop
  returns \<open>None\<close> when that search does not end. \<open>clock k\<close> is the reading of the clock
  when candidate number \<open>k\<close> is examined.
\<close>

fun resolve_loop ::
  "'a digest \<Rightarrow> 'a blockchain \<Rightarrow> (nat \<Rightarrow> real) \<Rightarrow> nat \<Rightarrow> 'a block list list
     \<Rightarrow> 'a block list option \<Rightarrow> nat \<Rightarrow> ('a block list option \<times> nat) option" where
  "resolve_loop H bc clock k [] longest_valid_chain longest_chain_length =
     Some (longest_valid_chain, longest_chain_length)"
| "resolve_loop H bc clock k (chain_data # rest) longest_valid_chain longest_chain_length =
     (if length chain_data \<le> longest_chain_length
      then resolve_loop H bc clock (Suc k) rest longest_valid_chain longest_chain_length
      else case Blockchain_init H (difficulty bc) (clock k) of
        None \<Rightarrow> None
      | Some fresh \<Rightarrow>
          (let temp_blockchain = fresh\<lparr>chain := []\<rparr>;
               valid_chain = candidate_is_valid H temp_blockchain chain_data
           in if valid_chain \<and> length chain_data > longest_chain_length
              then resolve_loop H bc clock (Suc k) rest (Some chain_data) (length chain_data)
              else resolve_loop H bc clock (Suc k) rest longest_valid_chain longest_chain_length))"

text \<open>\<open>if longest_valid_chain:\<close> is false for \<open>None\<close> and for the empty list.\<close>

definition resolve_fork ::
  "'a digest \<Rightarrow> (nat \<Rightarrow> real) \<Rightarrow> 'a blockchain \<Rightarrow> 'a block list list \<Rightarrow> (bool \<times> 'a blockchain) option" where
  "resolve_fork H clock bc competing_chains =
     (case resolve_loop H bc clock 0 competing_chains None (length (chain bc)) of
        None \<Rightarrow> None
      | Some (longest_valid_chain, longest_chain_length) \<Rightarrow>
          (case longest_valid_chain of
             None \<Rightarrow> Some (False, bc)
           | Some c \<Rightarrow> if c \<noteq> [] then Some (True, bc\<lparr>chain := c\<rparr>) else Some (False, bc)))"

text \<open>
  \<open>find_common_ancestor\<close>: the loop over \<open>range(min_length)\<close> returns at the first
  position where the hashes differ.
\<close>

function ancestor_loop :: "'a block list \<Rightarrow> 'a block list \<Rightarrow> nat \<Rightarrow> nat \<Rightarrow> int" where
  "ancestor_loop ours competing_chain min_length i =
     (if i < min_length then
        (if hash (ours ! i) \<noteq> hash (competing_chain ! i)
         then (if i = 0 then - 1 else int i - 1)
         else ancestor_loop ours competing_chain min_length (Suc i))
      else int min_length - 1)"
  by pat_completeness auto
termination
  by (relation "measure (\<lambda>(ours, c, n, i). n - i)") auto

definition find_common_ancestor :: "'a blockchain \<Rightarrow> 'a block list \<Rightarrow> int" where
  "find_common_ancestor bc competing_chain =
     (let min_length = min (length (chain bc)) (length competing_chain)
      in ancestor_loop (chain bc) competing_chain min_length 0)"

text \<open>
  \<open>_calculate_chain_work\<close>: the inner loop counts the leading \<open>'0'\<close> characters of a
  hash and stops at the first other character; the outer loop adds \<open>16 ** leading_zeros\<close>.
\<close>

fun count_zeros :: "string \<Rightarrow> nat \<Rightarrow> nat" where
  "count_zeros [] leading_zeros = leading_zeros"
| "count_zeros (c # cs) leading_zeros =
     (if c = CHR ''0'' then count_zeros cs (leading_zeros + 1) else leading_zeros)"

fun work_loop :: "'a block list \<Rightarrow> int \<Rightarrow> int" where
  "work_loop [] total_work = total_work"
| "work_loop (b # bs) total_work = work_loop bs (total_work + 16 ^ count_zeros (hash b) 0)"

definition calculate_chain_work :: "'a block list \<Rightarrow> int" where
  "calculate_chain_work chain_segment = work_loop chain_segment 0"

text \<open>
  The messages of \<open>sync_missing_blocks\<close> are format strings; each is a constructor that
  carries the number it prints.
\<close>

datatype sync_message =
    InvalidSyncIndex
  | InvalidBlockDuringSync int
  | SyncedBlocks int
  | NoCommonAncestor
  | ChainReplacedAfterFork int
  | OurChainHasMoreWork

function sync_append_loop ::
  "'a digest \<Rightarrow> 'a blockchain \<Rightarrow> 'a block list \<Rightarrow> int \<Rightarrow> nat \<Rightarrow> (bool \<times> sync_message) \<times> 'a blockchain" where
  "sync_append_loop H bc competing_chain sync_from_index i =
     (if i < length competing_chain then
        (if i = 0 \<or> is_valid_block H bc (competing_chain ! i) (competing_chain ! (i - 1))
         then sync_append_loop H (bc\<lparr>chain := chain bc @ [competing_chain ! i]\<rparr>)
                competing_chain sync_from_index (Suc i)
         else ((False, InvalidBlockDuringSync (int i)),
               bc\<lparr>chain := py_upto (chain bc) sync_from_index\<rparr>))
      else ((True, SyncedBlocks (int (length competing_chain) - sync_from_index)), bc))"
  by pat_completeness auto
termination
  by (relation "measure (\<lambda>(H, bc, c, f, i). length c - i)") auto

definition sync_missing_blocks ::
  "'a digest \<Rightarrow> 'a blockchain \<Rightarrow> 'a block list \<Rightarrow> int \<Rightarrow> (bool \<times> sync_message) \<times> 'a blockchain" where
  "sync_missing_blocks H bc competing_chain sync_from_index =
     (if sync_from_index < 0 \<or> sync_from_index \<ge> int (length competing_chain)
      then ((False, InvalidSyncIndex), bc)
      else if sync_from_index \<ge> int (length (chain bc))
      then sync_append_loop H bc competing_chain sync_from_index (nat sync_from_index)
      else
        (let common_ancestor = find_common_ancestor bc (py_upto competing_chain (sync_from_index + 1))
         in if common_ancestor = - 1 then ((False, NoCommonAncestor), bc)
            else
              (let our_chain_work = calculate_chain_work (py_from (chain bc) (common_ancestor + 1));
                   competing_chain_work = calculate_chain_work (py_from competing_chain (common_ancestor + 1))
               in if competing_chain_work > our_chain_work
                  then ((True, ChainReplacedAfterFork common_ancestor),
                        bc\<lparr>chain := py_upto (chain bc) (common_ancestor + 1)
                                      @ py_from competing_chain (common_ancestor + 1)\<rparr>)
                  else ((False, OurChainHasMoreWork), bc))))"

text \<open>The loops are unfolded by hand, one round at a time.\<close>

declare validate_loop.simps [simp del]
declare ancestor_loop.simps [simp del]
declare sync_append_loop.simps [simp del]

section \<open>Notions used by the properties\<close>

text \<open>
  The number of leading \<open>'0'\<close> characters of a hash, counted as \<open>_calculate_chain_work\<close>
  counts it.
\<close>

definition leading_zeros :: "string \<Rightarrow> nat" where
  "leading_zeros h = count_zeros h 0"

text \<open>One round of the mining loop, and what a finished search has kept and reached.\<close>

definition next_nonce :: "'a digest \<Rightarrow> 'a block \<Rightarrow> 'a block" where
  "next_nonce H b = (let b' = b\<lparr>nonce := nonce b + 1\<rparr> in b'\<lparr>hash := calculate_hash H b'\<rparr>)"

definition mined_from :: "'a digest \<Rightarrow> int \<Rightarrow> 'a block \<Rightarrow> 'a block \<Rightarrow> bool" where
  "mined_from H d b b' \<longleftrightarrow>
     meets_target d (hash b')
     \<and> index b' = index b \<and> timestamp b' = timestamp b \<and> data b' = data b
     \<and> previous_hash b' = previous_hash b
     \<and> (hash b = calculate_hash H b \<longrightarrow> hash b' = calculate_hash H b')"

text \<open>
  The structural invariant of a chain, in the words of the data model: the chain is not
  empty, block \<open>i\<close> has index \<open>i\<close>, every block after the first links to the hash of its
  predecessor and has at least \<open>difficulty\<close> leading zeros in its hash.
\<close>

definition chain_invariant :: "'a blockchain \<Rightarrow> bool" where
  "chain_invariant bc \<longleftrightarrow>
     chain bc \<noteq> []
     \<and> list_all (\<lambda>i. index (chain bc ! i) = int i) [0..<length (chain bc)]
     \<and> list_all (\<lambda>i. previous_hash (chain bc ! i) = hash (chain bc ! (i - 1))
                      \<and> difficulty bc \<le> int (leading_zeros (hash (chain bc ! i))))
         [1..<length (chain bc)]"

text \<open>
  Validation from scratch, in the words of the description of fork resolution: the first
  block has index 0 and the sentinel previous hash, every later block is valid against
  its predecessor within the candidate.
\<close>

definition validates_from_scratch :: "'a digest \<Rightarrow> 'a blockchain \<Rightarrow> 'a block list \<Rightarrow> bool" where
  "validates_from_scratch H bc c \<longleftrightarrow>
     c \<noteq> [] \<and> index (c ! 0) = 0 \<and> previous_hash (c ! 0) = str_mul (CHR ''0'') 64
     \<and> list_all (\<lambda>i. is_valid_block H bc (c ! i) (c ! (i - 1))) [1..<length c]"

section \<open>A small ledger for concrete instances\<close>

text \<open>
  A toy digest for the concrete instances: the nonce gives the number of leading zeros,
  the index and the payload keep the hashes of different blocks apart.
\<close>

definition demo_digest :: "string digest" where
  "demo_digest i t d p n =
     replicate (nat n) (CHR ''0'') @ CHR ''a'' # replicate (nat i) (CHR ''b'')
       @ (case d of Message s \<Rightarrow> ''m'' | Mined txs m \<Rightarrow> m | Opaque x \<Rightarrow> x)"

definition demo_genesis :: "string block" where
  "demo_genesis = \<lparr>index = 0, timestamp = 0, data = Message ''Genesis Block'',
     previous_hash = str_mul (CHR ''0'') 64, nonce = 1, hash = ''0am''\<rparr>"

definition demo_b1 :: "string block" where
  "demo_b1 = \<lparr>index = 1, timestamp = 1, data = Mined [''v1''] ''x'',
     previous_hash = ''0am'', nonce = 1, hash = ''0abx''\<rparr>"

text \<open>Another block 1 on the same genesis block, mined as well.\<close>

definition demo_b1_alt :: "string block" where
  "demo_b1_alt = \<lparr>index = 1, timestamp = 1, data = Mined [''v5''] ''y'',
     previous_hash = ''0am'', nonce = 1, hash = ''0aby''\<rparr>"

text \<open>The same block with one more round of search: two leading zeros.\<close>

definition demo_b1_heavy :: "string block" where
  "demo_b1_heavy = \<lparr>index = 1, timestamp = 1, data = Mined [''v5''] ''y'',
     previous_hash = ''0am'', nonce = 2, hash = ''00aby''\<rparr>"

definition demo_b2 :: "string block" where
  "demo_b2 = \<lparr>index = 2, timestamp = 2, data = Mined [''v2''] ''x'',
     previous_hash = ''0abx'', nonce = 1, hash = ''0abbx''\<rparr>"

definition demo_b3 :: "string block" where
  "demo_b3 = \<lparr>index = 3, timestamp = 3, data = Mined [''v3''] ''x'',
     previous_hash = ''0abbx'', nonce = 1, hash = ''0abbbx''\<rparr>"

text \<open>Another block 3 on the same parent, with a different payload, mined as well.\<close>

definition demo_b3_alt :: "string block" where
  "demo_b3_alt = \<lparr>index = 3, timestamp = 3, data = Mined [''v4''] ''y'',
     previous_hash = ''0abbx'', nonce = 1, hash = ''0abbby''\<rparr>"

text \<open>Block 3 as constructed, before any search: its hash has no leading zero.\<close>

definition demo_b3_unmined :: "string block" where
  "demo_b3_unmined = \<lparr>index = 3, timestamp = 3, data = Mined [''v3''] ''x'',
     previous_hash = ''0abbx'', nonce = 0, hash = ''abbbx''\<rparr>"

text \<open>Another genesis block.\<close>

definition demo_genesis_alt :: "string block" where
  "demo_genesis_alt = \<lparr>index = 0, timestamp = 5, data = Opaque ''z'',
     previous_hash = str_mul (CHR ''0'') 64, nonce = 1, hash = ''0az''\<rparr>"

text \<open>A block that fits nowhere, with three leading zeros in its stored hash.\<close>

definition demo_junk :: "string block" where
  "demo_junk = \<lparr>index = 7, timestamp = 0, data = Opaque ''junk'',
     previous_hash = ''ff'', nonce = 0, hash = ''000''\<rparr>"

text \<open>Two linked and mined blocks whose indices start at 5.\<close>

definition demo_s5 :: "string block" where
  "demo_s5 = \<lparr>index = 5, timestamp = 0, data = Opaque ''s'',
     previous_hash = ''ff'', nonce = 1, hash = ''0abbbbbs''\<rparr>"

definition demo_s6 :: "string block" where
  "demo_s6 = \<lparr>index = 6, timestamp = 0, data = Opaque ''s'',
     previous_hash = ''0abbbbbs'', nonce = 1, hash = ''0abbbbbbs''\<rparr>"

text \<open>A clock that stands still.\<close>

definition demo_clock :: "nat \<Rightarrow> real" where
  "demo_clock k = 0"

definition demo_bc1 :: "string blockchain" where
  "demo_bc1 = \<lparr>chain = [demo_genesis], difficulty = 1, pending_data = [''v1'']\<rparr>"

definition demo_bc2 :: "string blockchain" where
  "demo_bc2 = \<lparr>chain = [demo_genesis, demo_b1], difficulty = 1, pending_data = []\<rparr>"

definition demo_bc4 :: "string blockchain" where
  "demo_bc4 = \<lparr>chain = [demo_genesis, demo_b1, demo_b2, demo_b3], difficulty = 1,
     pending_data = []\<rparr>"

lemmas demo_defs =
  demo_digest_def demo_genesis_def demo_b1_def demo_b1_alt_def demo_b1_heavy_def demo_b2_def
  demo_b3_unmined_def demo_junk_def demo_s5_def demo_s6_def demo_clock_def demo_b3_def demo_b3_alt_def
  demo_genesis_alt_def demo_bc1_def demo_bc2_def demo_bc4_def

section \<open>Auxiliary lemmas\<close>

lemma count_zeros_takeWhile:
  "count_zeros h acc = acc + length (takeWhile (\<lambda>c. c = CHR ''0'') h)"
  by (induction h arbitrary: acc) auto

lemma leading_zeros_takeWhile:
  "leading_zeros h = length (takeWhile (\<lambda>c. c = CHR ''0'') h)"
  by (simp add: leading_zeros_def count_zeros_takeWhile)

lemma take_eq_replicate_iff:
  "take n h = replicate n c \<longleftrightarrow> n \<le> length (takeWhile (\<lambda>x. x = c) h)"
proof (induction h arbitrary: n)
  case Nil
  then show ?case by (cases n) auto
next
  case (Cons x xs)
  then show ?case by (cases n) auto
qed

lemma meets_target_iff:
  "0 \<le> d \<Longrightarrow> meets_target d h \<longleftrightarrow> d \<le> int (leading_zeros h)"
  by (simp add: meets_target_def py_upto_def str_mul_def take_eq_replicate_iff
      leading_zeros_takeWhile nat_le_iff)

lemma meets_target_leading_zeros:
  "meets_target d h \<Longrightarrow> d \<le> int (leading_zeros h)"
  by (cases "0 \<le> d") (simp_all add: meets_target_iff)

lemma ancestor_loop_least:
  assumes "i \<le> n" "\<forall>j<i. hash (ours ! j) = hash (theirs ! j)"
  shows "ancestor_loop ours theirs n i =
           int (LEAST k. k = n \<or> (k < n \<and> hash (ours ! k) \<noteq> hash (theirs ! k))) - 1"
  using assms
proof (induction ours theirs n i rule: ancestor_loop.induct)
  case (1 ours theirs n i)
  note unfold = ancestor_loop.simps [of ours theirs n i]
  show ?case
  proof (cases "i < n")
    case False
    with 1(2) have "i = n" by simp
    have "(LEAST k. k = n \<or> (k < n \<and> hash (ours ! k) \<noteq> hash (theirs ! k))) = n"
      using 1(3) \<open>i = n\<close> by (intro Least_equality) auto
    then show ?thesis using False by (simp add: unfold)
  next
    case True
    show ?thesis
    proof (cases "hash (ours ! i) \<noteq> hash (theirs ! i)")
      case True
      have "(LEAST k. k = n \<or> (k < n \<and> hash (ours ! k) \<noteq> hash (theirs ! k))) = i"
        using 1(3) True \<open>i < n\<close> by (intro Least_equality) (auto simp: not_less [symmetric])
      then show ?thesis using True \<open>i < n\<close> by (simp add: unfold)
    next
      case False
      then have "\<forall>j<Suc i. hash (ours ! j) = hash (theirs ! j)"
        using 1(3) by (auto simp: less_Suc_eq)
      with 1(1) [OF True] False True show ?thesis by (simp add: unfold)
    qed
  qed
qed

lemma ancestor_loop_mismatch:
  assumes "i < n" "\<forall>j<i. hash (ours ! j) = hash (theirs ! j)"
    "hash (ours ! i) \<noteq> hash (theirs ! i)"
  shows "ancestor_loop ours theirs n 0 = int i - 1"
proof -
  have "(LEAST k. k = n \<or> (k < n \<and> hash (ours ! k) \<noteq> hash (theirs ! k))) = i"
    using assms by (intro Least_equality) (auto simp: not_less [symmetric])
  then show ?thesis using ancestor_loop_least [of 0 n ours theirs] by simp
qed

lemma ancestor_loop_agree:
  assumes "\<forall>j<n. hash (ours ! j) = hash (theirs ! j)"
  shows "ancestor_loop ours theirs n 0 = int n - 1"
proof -
  have "(LEAST k. k = n \<or> (k < n \<and> hash (ours ! k) \<noteq> hash (theirs ! k))) = n"
    using assms by (intro Least_equality) auto
  then show ?thesis using ancestor_loop_least [of 0 n ours theirs] by simp
qed

lemma mine_block_unfold:
  "mine_block H d b = (if meets_target d (hash b) then Some b else mine_block H d (next_nonce H b))"
  by (subst mine_block.simps) (simp add: next_nonce_def)

lemma mine_block_result:
  assumes "mine_block H d b = Some b'"
  shows "mined_from H d b b'"
proof (rule mine_block.raw_induct [where P = mined_from, OF _ assms])
  fix f :: "'a digest \<Rightarrow> int \<Rightarrow> 'a block \<Rightarrow> 'a block option" and H d b b'
  assume IH: "\<And>H d b b'. f H d b = Some b' \<Longrightarrow> mined_from H d b b'"
    and step: "(if meets_target d (hash b) then Some b
                else f H d (let c = b\<lparr>nonce := nonce b + 1\<rparr> in c\<lparr>hash := calculate_hash H c\<rparr>)) = Some b'"
  show "mined_from H d b b'"
  proof (cases "meets_target d (hash b)")
    case True
    with step show ?thesis by (simp add: mined_from_def)
  next
    case False
    with step have "f H d (let c = b\<lparr>nonce := nonce b + 1\<rparr> in c\<lparr>hash := calculate_hash H c\<rparr>) = Some b'"
      by simp
    from IH [OF this] show ?thesis
      unfolding mined_from_def Let_def by (auto simp add: calculate_hash_def)
  qed
qed

text \<open>The search returns as soon as some later nonce gives a hash that meets the target.\<close>

lemma mine_block_returns:
  assumes "meets_target d (H (index b) (timestamp b) (data b) (previous_hash b) (nonce b + int k))"
    and "hash b = calculate_hash H b"
  shows "\<exists>b'. mine_block H d b = Some b'"
  using assms
proof (induction k arbitrary: b)
  case 0
  then show ?case by (subst mine_block.simps) (simp add: calculate_hash_def)
next
  case (Suc k)
  let ?c = "next_nonce H b"
  have c: "hash ?c = calculate_hash H ?c" "index ?c = index b" "timestamp ?c = timestamp b"
    "data ?c = data b" "previous_hash ?c = previous_hash b" "nonce ?c = nonce b + 1"
    by (simp_all add: next_nonce_def Let_def calculate_hash_def)
  have "meets_target d (H (index ?c) (timestamp ?c) (data ?c) (previous_hash ?c) (nonce ?c + int k))"
    using Suc.prems(1) by (simp add: c add.assoc)
  from Suc.IH [OF this c(1)] obtain b' where "mine_block H d ?c = Some b'" by blast
  then show ?case by (subst mine_block_unfold) simp
qed

lemma replicate_numeral:
  "replicate (numeral k) x = x # replicate (pred_numeral k) x"
  by (simp add: numeral_eq_Suc)

lemmas demo_eval =
  demo_defs is_valid_block_def calculate_hash_def py_upto_def py_from_def py_index_def
  str_mul_def replicate_numeral

lemma latest_block_nonempty:
  "chain bc \<noteq> [] \<Longrightarrow> latest_block bc = Inr (last (chain bc))"
  by (cases "chain bc" rule: rev_cases) (auto simp add: latest_block_def py_index_def)

lemma py_index_nonneg:
  "0 \<le> i \<Longrightarrow> i < int (length xs) \<Longrightarrow> py_index xs i = Inr (xs ! nat i)"
  by (simp add: py_index_def)

lemma Block_init_fields:
  "index (Block_init H i t d p n) = i" "timestamp (Block_init H i t d p n) = t"
  "data (Block_init H i t d p n) = d" "previous_hash (Block_init H i t d p n) = p"
  "nonce (Block_init H i t d p n) = n"
  "hash (Block_init H i t d p n) = calculate_hash H (Block_init H i t d p n)"
  by (simp_all add: Block_init_def Let_def calculate_hash_def)

lemma work_loop_sum:
  "work_loop bs t = t + (\<Sum>b\<leftarrow>bs. 16 ^ leading_zeros (hash b))"
  by (induction bs arbitrary: t) (simp_all add: leading_zeros_def)

lemma calculate_chain_work_sum:
  "calculate_chain_work seg = (\<Sum>b\<leftarrow>seg. 16 ^ leading_zeros (hash b))"
  by (simp add: calculate_chain_work_def work_loop_sum)

lemma ancestor_loop_bounds:
  "i \<le> n \<Longrightarrow> int i - 1 \<le> ancestor_loop ours theirs n i \<and> ancestor_loop ours theirs n i \<le> int n - 1"
proof (induction ours theirs n i rule: ancestor_loop.induct)
  case (1 ours theirs n i)
  note unfold = ancestor_loop.simps [of ours theirs n i]
  show ?case
  proof (cases "i < n \<and> hash (ours ! i) = hash (theirs ! i)")
    case True
    with 1(1) have "int (Suc i) - 1 \<le> ancestor_loop ours theirs n (Suc i)
        \<and> ancestor_loop ours theirs n (Suc i) \<le> int n - 1"
      by simp
    with True show ?thesis by (simp add: unfold)
  next
    case False
    with 1(2) show ?thesis by (auto simp add: unfold)
  qed
qed

lemma ancestor_loop_none_iff:
  assumes "0 < n"
  shows "ancestor_loop ours theirs n 0 = - 1 \<longleftrightarrow> hash (ours ! 0) \<noteq> hash (theirs ! 0)"
proof (cases "hash (ours ! 0) = hash (theirs ! 0)")
  case True
  have "int (Suc 0) - 1 \<le> ancestor_loop ours theirs n (Suc 0)"
    using assms ancestor_loop_bounds [of "Suc 0" n ours theirs] by simp
  with True assms show ?thesis by (simp add: ancestor_loop.simps [of ours theirs n 0])
next
  case False
  with assms show ?thesis by (simp add: ancestor_loop.simps [of ours theirs n 0])
qed

lemma is_valid_block_difficulty:
  "difficulty t = difficulty bc \<Longrightarrow> is_valid_block H t b p = is_valid_block H bc b p"
  by (simp add: is_valid_block_def)

lemma validate_loop_all:
  assumes "0 < i" "i \<le> length c" "chain t \<noteq> []" "last (chain t) = c ! (i - 1)"
    "difficulty t = difficulty bc"
  shows "validate_loop H t c i = list_all (\<lambda>j. is_valid_block H bc (c ! j) (c ! (j - 1))) [i..<length c]"
  using assms
proof (induction H t c i rule: validate_loop.induct)
  case (1 H t c i)
  note unfold = validate_loop.simps [of H t c i]
  show ?case
  proof (cases "i < length c")
    case False
    with 1(3) have "[i..<length c] = []" by simp
    with False show ?thesis by (subst unfold) simp
  next
    case True
    then have upt: "[i..<length c] = i # [Suc i..<length c]"
      by (simp add: upt_conv_Cons)
    have v: "is_valid_block H t (c ! i) (last (chain t)) = is_valid_block H bc (c ! i) (c ! (i - 1))"
      using 1(5,6) by (simp add: is_valid_block_def)
    show ?thesis
    proof (cases "is_valid_block H bc (c ! i) (c ! (i - 1))")
      case False
      with v True show ?thesis by (subst unfold) (simp add: upt)
    next
      case valid: True
      have "validate_loop H (t\<lparr>chain := chain t @ [c ! i]\<rparr>) c (Suc i)
              = list_all (\<lambda>j. is_valid_block H bc (c ! j) (c ! (j - 1))) [Suc i..<length c]"
        using True valid v 1(6) by (intro 1(1)) simp_all
      with valid v True show ?thesis by (subst unfold) (simp add: upt)
    qed
  qed
qed

lemma candidate_is_valid_scratch:
  assumes "c \<noteq> []" "difficulty t = difficulty bc"
  shows "candidate_is_valid H t c = validates_from_scratch H bc c"
proof -
  have "validate_loop H (t\<lparr>chain := chain t @ [c ! 0]\<rparr>) c 1
          = list_all (\<lambda>j. is_valid_block H bc (c ! j) (c ! (j - 1))) [1..<length c]"
    using assms by (intro validate_loop_all) (simp_all add: Suc_le_eq)
  with assms(1) show ?thesis
    by (auto simp add: candidate_is_valid_def validates_from_scratch_def)
qed

lemma Blockchain_init_difficulty:
  "Blockchain_init H d now = Some fresh \<Longrightarrow> difficulty fresh = d"
  by (auto simp add: Blockchain_init_def split: option.splits)

lemma resolve_loop_step:
  assumes "Blockchain_init H (difficulty bc) (clock k) \<noteq> None \<or> length c \<le> lcl"
  shows "resolve_loop H bc clock k (c # rest) lvc lcl =
     (if lcl < length c \<and> validates_from_scratch H bc c
      then resolve_loop H bc clock (Suc k) rest (Some c) (length c)
      else resolve_loop H bc clock (Suc k) rest lvc lcl)"
proof (cases "length c \<le> lcl")
  case True
  then show ?thesis by simp
next
  case False
  with assms obtain fresh where f: "Blockchain_init H (difficulty bc) (clock k) = Some fresh"
    by auto
  have "c \<noteq> []" using False by auto
  then have "candidate_is_valid H (fresh\<lparr>chain := []\<rparr>) c = validates_from_scratch H bc c"
    using Blockchain_init_difficulty [OF f] by (intro candidate_is_valid_scratch) simp_all
  with False f show ?thesis by (simp add: Let_def)
qed

lemma resolve_loop_None:
  "Blockchain_init H (difficulty bc) (clock k) = None \<Longrightarrow> lcl < length c \<Longrightarrow>
     resolve_loop H bc clock k (c # rest) lvc lcl = None"
  by simp

lemma resolve_loop_returns:
  "(\<forall>j<length cs. Blockchain_init H (difficulty bc) (clock (k + j)) \<noteq> None) \<Longrightarrow>
     \<exists>r. resolve_loop H bc clock k cs lvc lcl = Some r"
proof (induction cs arbitrary: k lvc lcl)
  case Nil
  then show ?case by simp
next
  case (Cons c cs)
  have "Blockchain_init H (difficulty bc) (clock k) \<noteq> None"
    using Cons.prems by (metis add.right_neutral length_greater_0_conv list.distinct(1))
  then have step: "resolve_loop H bc clock k (c # cs) lvc lcl =
     (if lcl < length c \<and> validates_from_scratch H bc c
      then resolve_loop H bc clock (Suc k) cs (Some c) (length c)
      else resolve_loop H bc clock (Suc k) cs lvc lcl)"
    by (intro resolve_loop_step disjI1)
  have "\<forall>j<length cs. Blockchain_init H (difficulty bc) (clock (Suc k + j)) \<noteq> None"
    using Cons.prems by (metis Suc_less_eq add_Suc_shift length_Cons)
  from Cons.IH [OF this] show ?case unfolding step by simp
qed

lemma resolve_loop_spec:
  assumes "resolve_loop H bc clock k cs lvc lcl = Some (lvc', lcl')"
  shows "(lvc' = lvc \<and> lcl' = lcl
           \<and> (\<forall>c\<in>set cs. validates_from_scratch H bc c \<longrightarrow> length c \<le> lcl))
         \<or> (\<exists>pre c post. cs = pre @ c # post \<and> lvc' = Some c \<and> lcl' = length c
               \<and> validates_from_scratch H bc c \<and> lcl < length c
               \<and> (\<forall>x\<in>set pre. validates_from_scratch H bc x \<longrightarrow> length x < length c)
               \<and> (\<forall>x\<in>set post. validates_from_scratch H bc x \<longrightarrow> length x \<le> length c))"
  using assms
proof (induction cs arbitrary: k lvc lcl)
  case Nil
  then show ?case by simp
next
  case (Cons c cs)
  have ok: "Blockchain_init H (difficulty bc) (clock k) \<noteq> None \<or> length c \<le> lcl"
    using Cons.prems by (cases "length c \<le> lcl") (auto split: option.splits)
  note step = resolve_loop_step
    [where H = H and bc = bc and clock = clock and k = k and c = c and lcl = lcl
       and rest = cs and lvc = lvc, OF ok]
  show ?case
  proof (cases "lcl < length c \<and> validates_from_scratch H bc c")
    case True
    with Cons.prems
    have run: "resolve_loop H bc clock (Suc k) cs (Some c) (length c) = Some (lvc', lcl')"
      unfolding step by simp
    from Cons.IH [OF run] show ?thesis
    proof
      assume a: "lvc' = Some c \<and> lcl' = length c
           \<and> (\<forall>x\<in>set cs. validates_from_scratch H bc x \<longrightarrow> length x \<le> length c)"
      have "c # cs = [] @ c # cs" by simp
      with a True show ?thesis by (intro disjI2 exI [of _ "[]"] exI [of _ c] exI [of _ cs]) simp
    next
      assume "\<exists>pre d post. cs = pre @ d # post \<and> lvc' = Some d \<and> lcl' = length d
               \<and> validates_from_scratch H bc d \<and> length c < length d
               \<and> (\<forall>x\<in>set pre. validates_from_scratch H bc x \<longrightarrow> length x < length d)
               \<and> (\<forall>x\<in>set post. validates_from_scratch H bc x \<longrightarrow> length x \<le> length d)"
      then obtain pre d post where b: "cs = pre @ d # post" "lvc' = Some d" "lcl' = length d"
        "validates_from_scratch H bc d" "length c < length d"
        "\<forall>x\<in>set pre. validates_from_scratch H bc x \<longrightarrow> length x < length d"
        "\<forall>x\<in>set post. validates_from_scratch H bc x \<longrightarrow> length x \<le> length d"
        by blast
      with True show ?thesis
        by (intro disjI2 exI [of _ "c # pre"] exI [of _ d] exI [of _ post]) auto
    qed
  next
    case False
    with Cons.prems
    have run: "resolve_loop H bc clock (Suc k) cs lvc lcl = Some (lvc', lcl')"
      unfolding step by simp
    from Cons.IH [OF run] show ?thesis
    proof
      assume "lvc' = lvc \<and> lcl' = lcl
           \<and> (\<forall>x\<in>set cs. validates_from_scratch H bc x \<longrightarrow> length x \<le> lcl)"
      with False show ?thesis by (intro disjI1) auto
    next
      assume "\<exists>pre d post. cs = pre @ d # post \<and> lvc' = Some d \<and> lcl' = length d
               \<and> validates_from_scratch H bc d \<and> lcl < length d
               \<and> (\<forall>x\<in>set pre. validates_from_scratch H bc x \<longrightarrow> length x < length d)
               \<and> (\<forall>x\<in>set post. validates_from_scratch H bc x \<longrightarrow> length x \<le> length d)"
      then obtain pre d post where b: "cs = pre @ d # post" "lvc' = Some d" "lcl' = length d"
        "validates_from_scratch H bc d" "lcl < length d"
        "\<forall>x\<in>set pre. validates_from_scratch H bc x \<longrightarrow> length x < length d"
        "\<forall>x\<in>set post. validates_from_scratch H bc x \<longrightarrow> length x \<le> length d"
        by blast
      with False show ?thesis
        by (intro disjI2 exI [of _ "c # pre"] exI [of _ d] exI [of _ post]) auto
    qed
  qed
qed

lemma resolve_fork_returns:
  assumes "\<forall>k<length cands. Blockchain_init H (difficulty bc) (clock k) \<noteq> None"
  shows "\<exists>r. resolve_fork H clock bc cands = Some r"
proof -
  from assms have "\<forall>j<length cands. Blockchain_init H (difficulty bc) (clock (0 + j)) \<noteq> None"
    by simp
  from resolve_loop_returns [OF this]
  obtain lvc lcl where "resolve_loop H bc clock 0 cands None (length (chain bc)) = Some (lvc, lcl)"
    by (metis surj_pair)
  then show ?thesis
    by (cases lvc) (auto simp add: resolve_fork_def)
qed

lemma resolve_fork_result:
  assumes r: "resolve_fork H clock bc cands = Some (replaced, bc')"
  shows "(\<not> replaced \<and> bc' = bc
        \<and> (\<forall>c\<in>set cands. validates_from_scratch H bc c \<longrightarrow> length c \<le> length (chain bc)))
      \<or> (replaced \<and> (\<exists>pre c post. cands = pre @ c # post \<and> bc' = bc\<lparr>chain := c\<rparr>
                 \<and> length (chain bc) < length c \<and> validates_from_scratch H bc c
                 \<and> (\<forall>x\<in>set pre. validates_from_scratch H bc x \<longrightarrow> length x < length c)
                 \<and> (\<forall>x\<in>set post. validates_from_scratch H bc x \<longrightarrow> length x \<le> length c)))"
proof -
  from r obtain lvc lcl where
    loop: "resolve_loop H bc clock 0 cands None (length (chain bc)) = Some (lvc, lcl)"
    by (auto simp add: resolve_fork_def split: option.splits)
  from resolve_loop_spec [OF loop]
  have cases: "(lvc = None \<and> (\<forall>c\<in>set cands. validates_from_scratch H bc c \<longrightarrow> length c \<le> length (chain bc)))
         \<or> (\<exists>pre c post. cands = pre @ c # post \<and> lvc = Some c
               \<and> validates_from_scratch H bc c \<and> length (chain bc) < length c
               \<and> (\<forall>x\<in>set pre. validates_from_scratch H bc x \<longrightarrow> length x < length c)
               \<and> (\<forall>x\<in>set post. validates_from_scratch H bc x \<longrightarrow> length x \<le> length c))"
    by blast
  have res: "(lvc = None \<and> \<not> replaced \<and> bc' = bc)
      \<or> (\<exists>c. lvc = Some c \<and> c = [] \<and> \<not> replaced \<and> bc' = bc)
      \<or> (\<exists>c. lvc = Some c \<and> c \<noteq> [] \<and> replaced \<and> bc' = bc\<lparr>chain := c\<rparr>)"
    using r loop by (auto simp add: resolve_fork_def split: option.splits if_splits)
  from cases res show ?thesis
    by (elim disjE exE conjE) (simp_all, blast)
qed

lemma demo_Blockchain_init:
  "Blockchain_init demo_digest 1 0 = Some \<lparr>chain = [demo_genesis], difficulty = 1, pending_data = []\<rparr>"
  by (simp add: Blockchain_init_def genesis_block_def Block_init_def mine_block.simps
      meets_target_def demo_eval)

lemma chain_invariant_iff:
  "chain_invariant bc \<longleftrightarrow>
     chain bc \<noteq> []
     \<and> (\<forall>i<length (chain bc). index (chain bc ! i) = int i)
     \<and> (\<forall>i. 0 < i \<and> i < length (chain bc) \<longrightarrow>
           previous_hash (chain bc ! i) = hash (chain bc ! (i - 1))
           \<and> difficulty bc \<le> int (leading_zeros (hash (chain bc ! i))))"
  by (auto simp add: chain_invariant_def list_all_iff)

lemma is_valid_block_facts:
  assumes "is_valid_block H bc b p"
  shows "index b = index p + 1" "previous_hash b = hash p" "hash b = calculate_hash H b"
    "difficulty bc \<le> int (leading_zeros (hash b))"
proof -
  from assms show "index b = index p + 1" "previous_hash b = hash p" "hash b = calculate_hash H b"
    by (simp_all add: is_valid_block_def split: if_splits)
  from assms have "meets_target (difficulty bc) (hash b)"
    by (simp add: is_valid_block_def meets_target_def split: if_splits)
  then show "difficulty bc \<le> int (leading_zeros (hash b))"
    by (rule meets_target_leading_zeros)
qed

lemma chain_invariant_append:
  assumes "chain_invariant bc" "index b = int (length (chain bc))"
    "previous_hash b = hash (last (chain bc))"
    "difficulty bc \<le> int (leading_zeros (hash b))"
  shows "chain_invariant (bc\<lparr>chain := chain bc @ [b], pending_data := q\<rparr>)"
proof -
  from assms(1) have ne: "chain bc \<noteq> []" by (simp add: chain_invariant_iff)
  then have l: "last (chain bc) = chain bc ! (length (chain bc) - 1)"
    by (rule last_conv_nth)
  show ?thesis
    unfolding chain_invariant_iff
  proof (intro conjI allI impI)
    show "chain (bc\<lparr>chain := chain bc @ [b], pending_data := q\<rparr>) \<noteq> []" by simp
  next
    fix i assume "i < length (chain (bc\<lparr>chain := chain bc @ [b], pending_data := q\<rparr>))"
    then show "index (chain (bc\<lparr>chain := chain bc @ [b], pending_data := q\<rparr>) ! i) = int i"
      using assms(1,2) by (auto simp add: chain_invariant_iff nth_append less_Suc_eq)
  next
    fix i assume i: "0 < i \<and> i < length (chain (bc\<lparr>chain := chain bc @ [b], pending_data := q\<rparr>))"
    show "previous_hash (chain (bc\<lparr>chain := chain bc @ [b], pending_data := q\<rparr>) ! i)
            = hash (chain (bc\<lparr>chain := chain bc @ [b], pending_data := q\<rparr>) ! (i - 1))"
    proof (cases "i < length (chain bc)")
      case True
      then have "i - 1 < length (chain bc)" by simp
      with True i assms(1) show ?thesis by (simp add: chain_invariant_iff nth_append)
    next
      case False
      with i have "i = length (chain bc)" by simp
      with assms(3) l ne show ?thesis by (simp add: nth_append)
    qed
    show "difficulty (bc\<lparr>chain := chain bc @ [b], pending_data := q\<rparr>)
            \<le> int (leading_zeros (hash (chain (bc\<lparr>chain := chain bc @ [b], pending_data := q\<rparr>) ! i)))"
    proof (cases "i < length (chain bc)")
      case True
      with i assms(1) show ?thesis by (simp add: chain_invariant_iff nth_append)
    next
      case False
      with i have "i = length (chain bc)" by simp
      with assms(4) show ?thesis by (simp add: nth_append)
    qed
  qed
qed

lemma chain_invariant_valid_next:
  assumes "chain_invariant bc" "is_valid_block H bc b (last (chain bc))"
  shows "chain_invariant (bc\<lparr>chain := chain bc @ [b]\<rparr>)"
proof -
  from assms(1) have ne: "chain bc \<noteq> []"
    and idx: "index (chain bc ! (length (chain bc) - 1)) = int (length (chain bc) - 1)"
    by (simp_all add: chain_invariant_iff)
  from ne idx have "index (last (chain bc)) = int (length (chain bc)) - 1"
    by (simp add: last_conv_nth Suc_le_eq)
  with is_valid_block_facts [OF assms(2)]
  have "chain_invariant (bc\<lparr>chain := chain bc @ [b], pending_data := pending_data bc\<rparr>)"
    by (intro chain_invariant_append assms(1)) simp_all
  then show ?thesis by simp
qed

lemma chain_invariant_validated:
  assumes "c \<noteq> []" "index (c ! 0) = 0"
    "list_all (\<lambda>i. is_valid_block H bc (c ! i) (c ! (i - 1))) [1..<length c]"
  shows "chain_invariant (bc\<lparr>chain := c\<rparr>)"
proof -
  have v: "is_valid_block H bc (c ! i) (c ! (i - 1))" if "0 < i" "i < length c" for i
    using assms(3) that by (simp add: list_all_iff)
  have idx: "i < length c \<Longrightarrow> index (c ! i) = int i" for i
  proof (induction i)
    case 0
    then show ?case using assms(2) by simp
  next
    case (Suc i)
    then have "index (c ! i) = int i" by simp
    with is_valid_block_facts(1) [OF v [of "Suc i"]] Suc.prems show ?case by simp
  qed
  show ?thesis
    unfolding chain_invariant_iff
    using assms(1) idx is_valid_block_facts(2,4) [OF v] by simp
qed

lemma Blockchain_init_invariant:
  assumes "Blockchain_init H d now = Some bc0"
  shows "chain_invariant bc0"
proof -
  from assms obtain g where g: "mine_block H d (genesis_block H now) = Some g"
    and bc0: "bc0 = \<lparr>chain = [g], difficulty = d, pending_data = []\<rparr>"
    by (auto simp add: Blockchain_init_def split: option.splits)
  from mine_block_result [OF g] have "index g = 0"
    by (simp add: mined_from_def genesis_block_def Block_init_fields)
  with bc0 show ?thesis by (simp add: chain_invariant_def)
qed

lemma mine_pending_data_invariant:
  assumes "chain_invariant bc" "mine_pending_data H now miner_address bc = Some (Inr (r, bc'))"
  shows "chain_invariant bc'"
proof (cases "pending_data bc = []")
  case True
  with assms show ?thesis by (simp add: mine_pending_data_def)
next
  case False
  from assms(1) have ne: "chain bc \<noteq> []" by (simp add: chain_invariant_iff)
  let ?b0 = "Block_init H (int (length (chain bc))) now (Mined (pending_data bc) miner_address)
               (hash (last (chain bc))) 0"
  from assms(2) False ne obtain nb where nb: "mine_block H (difficulty bc) ?b0 = Some nb"
    and bc': "bc' = bc\<lparr>chain := chain bc @ [nb], pending_data := []\<rparr>"
    by (auto simp add: mine_pending_data_def latest_block_nonempty split: option.splits)
  from mine_block_result [OF nb] have "index nb = int (length (chain bc))"
    "previous_hash nb = hash (last (chain bc))" "difficulty bc \<le> int (leading_zeros (hash nb))"
    by (simp_all add: mined_from_def Block_init_fields(1-5) meets_target_leading_zeros)
  with assms(1) show ?thesis unfolding bc' by (intro chain_invariant_append)
qed

lemma add_block_invariant:
  assumes "chain_invariant bc" "add_block H bc b = Inr (ok, bc')"
  shows "chain_invariant bc'"
proof -
  from assms(1) have ne: "chain bc \<noteq> []" by (simp add: chain_invariant_iff)
  show ?thesis
  proof (cases "is_valid_block H bc b (last (chain bc))")
    case True
    with assms(2) ne have "bc' = bc\<lparr>chain := chain bc @ [b]\<rparr>"
      by (simp add: add_block_def latest_block_nonempty)
    with chain_invariant_valid_next [OF assms(1) True] show ?thesis by simp
  next
    case False
    with assms ne show ?thesis by (simp add: add_block_def latest_block_nonempty)
  qed
qed

lemma fork_detection_and_resolution_invariant:
  assumes "chain_invariant bc" "fork_detection_and_resolution H bc rb = Inr (res, bc')"
  shows "chain_invariant bc'"
proof -
  from assms(1) have ne: "chain bc \<noteq> []" by (simp add: chain_invariant_iff)
  from assms(2) ne have "bc' = bc
      \<or> (bc' = bc\<lparr>chain := chain bc @ [rb]\<rparr> \<and> is_valid_block H bc rb (last (chain bc)))"
    by (auto simp add: fork_detection_and_resolution_def latest_block_nonempty
        split: if_splits sum.splits)
  with assms(1) chain_invariant_valid_next [OF assms(1)] show ?thesis by auto
qed

lemma resolve_fork_invariant:
  assumes "chain_invariant bc" "resolve_fork H clock bc cands = Some (ok, bc')"
  shows "chain_invariant bc'"
proof -
  from resolve_fork_result [OF assms(2)]
  have "bc' = bc \<or> (\<exists>c. bc' = bc\<lparr>chain := c\<rparr> \<and> validates_from_scratch H bc c)"
    by blast
  then show ?thesis
  proof
    assume "bc' = bc" with assms(1) show ?thesis by simp
  next
    assume "\<exists>c. bc' = bc\<lparr>chain := c\<rparr> \<and> validates_from_scratch H bc c"
    then obtain c where c: "bc' = bc\<lparr>chain := c\<rparr>" "validates_from_scratch H bc c" by blast
    from c(2) have "chain_invariant (bc\<lparr>chain := c\<rparr>)"
      by (intro chain_invariant_validated [of c H]) (simp_all add: validates_from_scratch_def)
    with c(1) show ?thesis by simp
  qed
qed

lemma replace_chain_invariant:
  assumes "chain_invariant bc" "index (new_chain ! 0) = 0"
  shows "chain_invariant (snd (replace_chain H bc new_chain))"
proof (cases "length (chain bc) < length new_chain \<and> is_valid_chain H bc new_chain")
  case True
  then have "chain_invariant (bc\<lparr>chain := new_chain\<rparr>)"
    using assms(2)
    by (intro chain_invariant_validated [of new_chain H])
      (auto simp add: is_valid_chain_def split: if_splits)
  with True show ?thesis by (simp add: replace_chain_def not_le)
next
  case False
  with assms(1) show ?thesis by (auto simp add: replace_chain_def)
qed

text \<open>When the subscripts of \<open>fork_detection_and_resolution\<close> are out of range.\<close>

lemma fork_detection_and_resolution_raises_iff:
  "fork_detection_and_resolution H bc rb = Inl IndexError \<longleftrightarrow>
        (chain bc = [] \<and> index rb \<le> 0)
        \<or> index rb < - int (length (chain bc))
        \<or> (chain bc \<noteq> [] \<and> index rb = - int (length (chain bc))
            \<and> hash (chain bc ! 0) \<noteq> hash rb)"
proof (cases "chain bc = []")
  case True
  then show ?thesis
    by (auto simp add: fork_detection_and_resolution_def latest_block_def py_index_def)
next
  case False
  then have pos: "0 < int (length (chain bc))" by simp
  show ?thesis
  proof (cases "index rb < int (length (chain bc))")
    case ge: False
    with False pos show ?thesis
      by (auto simp add: fork_detection_and_resolution_def latest_block_nonempty)
  next
    case lt: True
    show ?thesis
    proof (cases "- int (length (chain bc)) \<le> index rb")
      case out: False
      with lt pos show ?thesis
        by (simp add: fork_detection_and_resolution_def py_index_def)
    next
      case inr: True
      show ?thesis
      proof (cases "index rb = - int (length (chain bc))")
        case True
        with pos lt False show ?thesis
          by (simp add: fork_detection_and_resolution_def py_index_def)
      next
        case False
        with inr have "- int (length (chain bc)) \<le> index rb - 1" by simp
        with lt inr False \<open>chain bc \<noteq> []\<close> show ?thesis
          by (auto simp add: fork_detection_and_resolution_def py_index_def)
      qed
    qed
  qed
qed

section \<open>Block validation\<close>

text \<open>
  C2. \<open>is_valid_block\<close> accepts a candidate against a previous block exactly when the
  four conditions hold: the index is the previous index plus one, the previous hash is
  the hash of the previous block, the stored hash is the recomputed hash, and the hash
  has at least \<open>difficulty\<close> leading \<open>'0'\<close> characters. The difficulty is a count, so it
  is not negative.
\<close>

theorem is_valid_block_iff:
  assumes "0 \<le> difficulty self"
  shows "is_valid_block H self candidate previous \<longleftrightarrow>
           (index candidate = index previous + 1
            \<and> previous_hash candidate = hash previous
            \<and> hash candidate = calculate_hash H candidate
            \<and> difficulty self \<le> int (leading_zeros (hash candidate)))"
  using meets_target_iff [OF assms, of "hash candidate"]
  by (auto simp add: is_valid_block_def meets_target_def)

theorem is_valid_block_iff_witness:
  "0 \<le> difficulty demo_bc1
   \<and> is_valid_block demo_digest demo_bc1 demo_b1 demo_genesis
   \<and> \<not> is_valid_block demo_digest demo_bc1 demo_b3 demo_b1"
  using is_valid_block_iff [of demo_bc1 demo_digest demo_b1 demo_genesis]
    is_valid_block_iff [of demo_bc1 demo_digest demo_b3 demo_b1]
  by (simp add: demo_defs calculate_hash_def leading_zeros_def)

section \<open>Common ancestor\<close>

text \<open>
  C9. \<open>find_common_ancestor\<close> compares the hashes position by position over the first
  \<open>min(len(local), len(candidate))\<close> positions. It returns -1 when the blocks at
  position 0 differ; when the first mismatch is at position \<open>i\<close> it returns \<open>i - 1\<close>, the
  last matching position; when there is no mismatch in the overlap it returns the
  minimum of the lengths minus one.
\<close>

theorem find_common_ancestor_cases:
  "(0 < min (length (chain bc)) (length theirs) \<and> hash (chain bc ! 0) \<noteq> hash (theirs ! 0)
      \<longrightarrow> find_common_ancestor bc theirs = - 1)
   \<and> (\<forall>i < min (length (chain bc)) (length theirs).
        (\<forall>j<i. hash (chain bc ! j) = hash (theirs ! j)) \<and> hash (chain bc ! i) \<noteq> hash (theirs ! i)
        \<longrightarrow> find_common_ancestor bc theirs = int i - 1)
   \<and> ((\<forall>j < min (length (chain bc)) (length theirs). hash (chain bc ! j) = hash (theirs ! j))
        \<longrightarrow> find_common_ancestor bc theirs = int (min (length (chain bc)) (length theirs)) - 1)"
proof (intro conjI allI impI)
  assume "0 < min (length (chain bc)) (length theirs) \<and> hash (chain bc ! 0) \<noteq> hash (theirs ! 0)"
  then show "find_common_ancestor bc theirs = - 1"
    using ancestor_loop_mismatch [of 0 "min (length (chain bc)) (length theirs)" "chain bc" theirs]
    by (simp add: find_common_ancestor_def)
next
  fix i
  assume "i < min (length (chain bc)) (length theirs)"
    and "(\<forall>j<i. hash (chain bc ! j) = hash (theirs ! j)) \<and> hash (chain bc ! i) \<noteq> hash (theirs ! i)"
  then show "find_common_ancestor bc theirs = int i - 1"
    using ancestor_loop_mismatch [of i "min (length (chain bc)) (length theirs)" "chain bc" theirs]
    by (simp add: find_common_ancestor_def)
next
  assume "\<forall>j < min (length (chain bc)) (length theirs). hash (chain bc ! j) = hash (theirs ! j)"
  then show "find_common_ancestor bc theirs = int (min (length (chain bc)) (length theirs)) - 1"
    using ancestor_loop_agree [of "min (length (chain bc)) (length theirs)" "chain bc" theirs]
    by (simp add: find_common_ancestor_def)
qed

theorem find_common_ancestor_cases_witness:
  "find_common_ancestor demo_bc4 [demo_genesis_alt, demo_b1] = - 1
   \<and> find_common_ancestor demo_bc4 [demo_genesis, demo_b1, demo_b2, demo_b3_alt] = 2
   \<and> find_common_ancestor demo_bc4 [demo_genesis, demo_b1] = 1"
proof -
  let ?alt = "[demo_genesis_alt, demo_b1]"
  let ?fork = "[demo_genesis, demo_b1, demo_b2, demo_b3_alt]"
  let ?pre = "[demo_genesis, demo_b1]"
  have three: "j < 3 \<longleftrightarrow> j = 0 \<or> j = 1 \<or> j = 2" for j :: nat by auto
  have two: "j < 2 \<longleftrightarrow> j = 0 \<or> j = 1" for j :: nat by auto
  have "0 < min (length (chain demo_bc4)) (length ?alt)
        \<and> hash (chain demo_bc4 ! 0) \<noteq> hash (?alt ! 0)"
    by (simp add: demo_defs)
  with find_common_ancestor_cases [of demo_bc4 ?alt]
  have a: "find_common_ancestor demo_bc4 ?alt = - 1" by blast
  have "3 < min (length (chain demo_bc4)) (length ?fork)"
    by (simp add: demo_defs)
  moreover have "\<forall>j<3. hash (chain demo_bc4 ! j) = hash (?fork ! j)"
    by (auto simp add: three demo_defs)
  moreover have "hash (chain demo_bc4 ! 3) \<noteq> hash (?fork ! 3)"
    by (simp add: demo_defs)
  ultimately have "find_common_ancestor demo_bc4 ?fork = int 3 - 1"
    using find_common_ancestor_cases [of demo_bc4 ?fork] by blast
  then have b: "find_common_ancestor demo_bc4 ?fork = 2" by simp
  have m: "min (length (chain demo_bc4)) (length ?pre) = 2"
    by (simp add: demo_defs)
  have "\<forall>j<2. hash (chain demo_bc4 ! j) = hash (?pre ! j)"
    by (auto simp add: two demo_defs)
  with find_common_ancestor_cases [of demo_bc4 ?pre] m
  have "find_common_ancestor demo_bc4 ?pre = int 2 - 1" by simp
  then have c: "find_common_ancestor demo_bc4 ?pre = 1" by simp
  from a b c show ?thesis by simp
qed

section \<open>Mining the pending data\<close>

text \<open>
  C6. On an empty queue \<open>mine_pending_data\<close> returns no block and the blockchain it was
  called on. On a non-empty queue (and a non-empty chain), when some nonce gives the new
  block a hash that meets the target, it returns a block with index \<open>len(chain)\<close>, the
  queue and the miner address as data, the hash of the latest block as previous hash and
  a hash, its own, with at least \<open>difficulty\<close> leading zeros; the block is appended and the
  queue is empty. A blockchain it returns is either the one it was given or that one with
  the returned block appended and the queue cleared: the queue is never cleared without
  the block.
\<close>

theorem mine_pending_data_spec:
  "(pending_data bc = [] \<longrightarrow> mine_pending_data H now miner_address bc = Some (Inr (None, bc)))
   \<and> (pending_data bc \<noteq> [] \<and> chain bc \<noteq> []
        \<and> (\<exists>k. meets_target (difficulty bc)
                  (H (int (length (chain bc))) now (Mined (pending_data bc) miner_address)
                     (hash (last (chain bc))) (int k)))
      \<longrightarrow> (\<exists>nb. mine_pending_data H now miner_address bc
                   = Some (Inr (Some nb, bc\<lparr>chain := chain bc @ [nb], pending_data := []\<rparr>))
                \<and> index nb = int (length (chain bc))
                \<and> data nb = Mined (pending_data bc) miner_address
                \<and> previous_hash nb = hash (last (chain bc))
                \<and> hash nb = calculate_hash H nb
                \<and> difficulty bc \<le> int (leading_zeros (hash nb))))
   \<and> (\<forall>r bc'. mine_pending_data H now miner_address bc = Some (Inr (r, bc')) \<longrightarrow>
         (r = None \<and> bc' = bc)
         \<or> (\<exists>nb. r = Some nb \<and> bc' = bc\<lparr>chain := chain bc @ [nb], pending_data := []\<rparr>))"
proof (intro conjI impI allI)
  assume "pending_data bc = []"
  then show "mine_pending_data H now miner_address bc = Some (Inr (None, bc))"
    by (simp add: mine_pending_data_def)
next
  let ?b0 = "Block_init H (int (length (chain bc))) now (Mined (pending_data bc) miner_address)
               (hash (last (chain bc))) 0"
  assume a: "pending_data bc \<noteq> [] \<and> chain bc \<noteq> []
        \<and> (\<exists>k. meets_target (difficulty bc)
                  (H (int (length (chain bc))) now (Mined (pending_data bc) miner_address)
                     (hash (last (chain bc))) (int k)))"
  then obtain k where k: "meets_target (difficulty bc)
                  (H (int (length (chain bc))) now (Mined (pending_data bc) miner_address)
                     (hash (last (chain bc))) (int k))" by blast
  have "meets_target (difficulty bc)
          (H (index ?b0) (timestamp ?b0) (data ?b0) (previous_hash ?b0) (nonce ?b0 + int k))"
    using k by (simp add: Block_init_fields)
  moreover have "hash ?b0 = calculate_hash H ?b0"
    by (rule Block_init_fields(6))
  ultimately have "\<exists>b'. mine_block H (difficulty bc) ?b0 = Some b'"
    by (rule mine_block_returns [where b = ?b0 and k = k and H = H])
  then obtain nb where nb: "mine_block H (difficulty bc) ?b0 = Some nb" by blast
  from mine_block_result [OF nb] have m: "mined_from H (difficulty bc) ?b0 nb" .
  have "mine_pending_data H now miner_address bc
          = Some (Inr (Some nb, bc\<lparr>chain := chain bc @ [nb], pending_data := []\<rparr>))"
    using a nb by (simp add: mine_pending_data_def latest_block_nonempty)
  moreover have "index nb = int (length (chain bc))" "data nb = Mined (pending_data bc) miner_address"
    "previous_hash nb = hash (last (chain bc))" "hash nb = calculate_hash H nb"
    using m Block_init_fields(6) [of H "int (length (chain bc))" now "Mined (pending_data bc) miner_address" "hash (last (chain bc))" 0]
    by (simp_all add: mined_from_def Block_init_fields(1-5))
  moreover have "difficulty bc \<le> int (leading_zeros (hash nb))"
    using m by (simp add: mined_from_def meets_target_leading_zeros)
  ultimately show "\<exists>nb. mine_pending_data H now miner_address bc
                   = Some (Inr (Some nb, bc\<lparr>chain := chain bc @ [nb], pending_data := []\<rparr>))
                \<and> index nb = int (length (chain bc))
                \<and> data nb = Mined (pending_data bc) miner_address
                \<and> previous_hash nb = hash (last (chain bc))
                \<and> hash nb = calculate_hash H nb
                \<and> difficulty bc \<le> int (leading_zeros (hash nb))"
    by blast
next
  fix r bc'
  assume "mine_pending_data H now miner_address bc = Some (Inr (r, bc'))"
  then show "(r = None \<and> bc' = bc)
         \<or> (\<exists>nb. r = Some nb \<and> bc' = bc\<lparr>chain := chain bc @ [nb], pending_data := []\<rparr>)"
    by (cases "pending_data bc = []"; cases "latest_block bc";
        cases "mine_block H (difficulty bc)
                 (Block_init H (int (length (chain bc))) now
                    (Mined (pending_data bc) miner_address)
                    (hash (projr (latest_block bc))) 0)")
       (simp_all add: mine_pending_data_def, blast+)
qed

theorem mine_pending_data_spec_witness:
  "mine_pending_data demo_digest 1 ''x'' demo_bc2 = Some (Inr (None, demo_bc2))
   \<and> (\<exists>nb. mine_pending_data demo_digest 1 ''x'' demo_bc1
              = Some (Inr (Some nb, demo_bc1\<lparr>chain := chain demo_bc1 @ [nb], pending_data := []\<rparr>))
            \<and> index nb = int (length (chain demo_bc1))
            \<and> data nb = Mined (pending_data demo_bc1) ''x''
            \<and> previous_hash nb = hash (last (chain demo_bc1))
            \<and> hash nb = calculate_hash demo_digest nb
            \<and> difficulty demo_bc1 \<le> int (leading_zeros (hash nb)))"
proof -
  have a: "mine_pending_data demo_digest 1 ''x'' demo_bc2 = Some (Inr (None, demo_bc2))"
    using mine_pending_data_spec [of demo_bc2 demo_digest 1 "''x''"]
    by (simp add: demo_defs)
  have "meets_target (difficulty demo_bc1)
          (demo_digest (int (length (chain demo_bc1))) 1 (Mined (pending_data demo_bc1) ''x'')
             (hash (last (chain demo_bc1))) (int 1))"
    by (simp add: demo_eval meets_target_def)
  then have "pending_data demo_bc1 \<noteq> [] \<and> chain demo_bc1 \<noteq> []
        \<and> (\<exists>k. meets_target (difficulty demo_bc1)
                  (demo_digest (int (length (chain demo_bc1))) 1
                     (Mined (pending_data demo_bc1) ''x'')
                     (hash (last (chain demo_bc1))) (int k)))"
    by (intro conjI exI [of _ 1]) (simp_all add: demo_defs)
  with mine_pending_data_spec [of demo_bc1 demo_digest 1 "''x''"]
  have b: "\<exists>nb. mine_pending_data demo_digest 1 ''x'' demo_bc1
              = Some (Inr (Some nb, demo_bc1\<lparr>chain := chain demo_bc1 @ [nb], pending_data := []\<rparr>))
            \<and> index nb = int (length (chain demo_bc1))
            \<and> data nb = Mined (pending_data demo_bc1) ''x''
            \<and> previous_hash nb = hash (last (chain demo_bc1))
            \<and> hash nb = calculate_hash demo_digest nb
            \<and> difficulty demo_bc1 \<le> int (leading_zeros (hash nb))"
    by blast
  from a b show ?thesis by blast
qed

section \<open>Replacing the chain\<close>

text \<open>
  C4. \<open>replace_chain\<close> installs the candidate and returns True exactly when the
  candidate is longer than the current chain and \<open>is_valid_chain\<close> accepts it; in every
  other case it returns False and the blockchain is the one it was called on. A chain
  of equal or smaller length is never accepted, nor is an invalid one of any length.
\<close>

theorem replace_chain_iff:
  "replace_chain H bc candidate =
     (if length (chain bc) < length candidate \<and> is_valid_chain H bc candidate
      then (True, bc\<lparr>chain := candidate\<rparr>)
      else (False, bc))"
  by (simp add: replace_chain_def not_le)

theorem replace_chain_iff_witness:
  "replace_chain demo_digest demo_bc2 [demo_genesis, demo_b1, demo_b2]
     = (True, demo_bc2\<lparr>chain := [demo_genesis, demo_b1, demo_b2]\<rparr>)
   \<and> replace_chain demo_digest demo_bc2 [demo_genesis, demo_b1_alt] = (False, demo_bc2)
   \<and> replace_chain demo_digest demo_bc2 [demo_genesis, demo_b1, demo_b3] = (False, demo_bc2)"
proof -
  have u: "[1..<3] = [1, 2]" by (simp add: upt_rec)
  show ?thesis
    using replace_chain_iff [of demo_digest demo_bc2 "[demo_genesis, demo_b1, demo_b2]"]
      replace_chain_iff [of demo_digest demo_bc2 "[demo_genesis, demo_b1_alt]"]
      replace_chain_iff [of demo_digest demo_bc2 "[demo_genesis, demo_b1, demo_b3]"]
    by (simp add: u demo_eval is_valid_chain_def)
qed

section \<open>A single received block\<close>

text \<open>
  C7. The decision table of \<open>fork_detection_and_resolution\<close>, with \<open>L\<close> the length of
  the chain: an index above \<open>L\<close> gives "need to sync" and no change; an index equal to
  \<open>L\<close> appends the block and returns True when \<open>is_valid_block\<close> accepts it against the
  latest block, and returns False with no change otherwise; an index below \<open>L\<close> with the
  hash of the local block at that index gives "already exists"; with another hash and
  index 0 the local chain is kept; with another hash, a positive index and a previous hash
  that is the hash of the local predecessor a fork is reported, with no change. The chain
  is not empty and the index of a block is a position, so it is not negative.
\<close>

theorem fork_detection_and_resolution_table:
  assumes "chain bc \<noteq> []" and "0 \<le> index rb"
  shows
    "(int (length (chain bc)) < index rb \<longrightarrow>
        fork_detection_and_resolution H bc rb = Inr ((False, ''Need to sync blocks''), bc))
     \<and> (index rb = int (length (chain bc)) \<and> is_valid_block H bc rb (last (chain bc)) \<longrightarrow>
        fork_detection_and_resolution H bc rb
          = Inr ((True, ''Block added to chain''), bc\<lparr>chain := chain bc @ [rb]\<rparr>))
     \<and> (index rb = int (length (chain bc)) \<and> \<not> is_valid_block H bc rb (last (chain bc)) \<longrightarrow>
        fork_detection_and_resolution H bc rb = Inr ((False, ''Invalid next block''), bc))
     \<and> (index rb < int (length (chain bc)) \<and> hash (chain bc ! nat (index rb)) = hash rb \<longrightarrow>
        fork_detection_and_resolution H bc rb
          = Inr ((False, ''Block already exists in our chain''), bc))
     \<and> (index rb < int (length (chain bc)) \<and> hash (chain bc ! nat (index rb)) \<noteq> hash rb
          \<and> index rb = 0 \<longrightarrow>
        fork_detection_and_resolution H bc rb
          = Inr ((False, ''Genesis block conflict, keeping our chain''), bc))
     \<and> (index rb < int (length (chain bc)) \<and> hash (chain bc ! nat (index rb)) \<noteq> hash rb
          \<and> 0 < index rb \<and> previous_hash rb = hash (chain bc ! nat (index rb - 1)) \<longrightarrow>
        fork_detection_and_resolution H bc rb
          = Inr ((False, ''Fork detected, need full chain comparison''), bc))"
  using assms
  by (auto simp add: fork_detection_and_resolution_def latest_block_nonempty py_index_nonneg)

theorem fork_detection_and_resolution_table_witness:
  "fork_detection_and_resolution demo_digest demo_bc2 demo_b3
     = Inr ((False, ''Need to sync blocks''), demo_bc2)
   \<and> fork_detection_and_resolution demo_digest demo_bc2 demo_b2
     = Inr ((True, ''Block added to chain''), demo_bc2\<lparr>chain := chain demo_bc2 @ [demo_b2]\<rparr>)
   \<and> fork_detection_and_resolution demo_digest demo_bc2 (demo_b2\<lparr>previous_hash := ''0aby''\<rparr>)
     = Inr ((False, ''Invalid next block''), demo_bc2)
   \<and> fork_detection_and_resolution demo_digest demo_bc2 demo_b1
     = Inr ((False, ''Block already exists in our chain''), demo_bc2)
   \<and> fork_detection_and_resolution demo_digest demo_bc2 demo_genesis_alt
     = Inr ((False, ''Genesis block conflict, keeping our chain''), demo_bc2)
   \<and> fork_detection_and_resolution demo_digest demo_bc2 demo_b1_alt
     = Inr ((False, ''Fork detected, need full chain comparison''), demo_bc2)"
proof -
  have ne: "chain demo_bc2 \<noteq> []" by (simp add: demo_defs)
  have a: "fork_detection_and_resolution demo_digest demo_bc2 demo_b3
             = Inr ((False, ''Need to sync blocks''), demo_bc2)"
    using fork_detection_and_resolution_table [OF ne, of demo_b3 demo_digest]
    by (simp add: demo_defs)
  have b: "fork_detection_and_resolution demo_digest demo_bc2 demo_b2
             = Inr ((True, ''Block added to chain''), demo_bc2\<lparr>chain := chain demo_bc2 @ [demo_b2]\<rparr>)"
    using fork_detection_and_resolution_table [OF ne, of demo_b2 demo_digest]
    by (simp add: demo_eval)
  have c: "fork_detection_and_resolution demo_digest demo_bc2 (demo_b2\<lparr>previous_hash := ''0aby''\<rparr>)
             = Inr ((False, ''Invalid next block''), demo_bc2)"
    using fork_detection_and_resolution_table [OF ne, of "demo_b2\<lparr>previous_hash := ''0aby''\<rparr>" demo_digest]
    by (simp add: demo_eval)
  have d: "fork_detection_and_resolution demo_digest demo_bc2 demo_b1
             = Inr ((False, ''Block already exists in our chain''), demo_bc2)"
    using fork_detection_and_resolution_table [OF ne, of demo_b1 demo_digest]
    by (simp add: demo_defs)
  have e: "fork_detection_and_resolution demo_digest demo_bc2 demo_genesis_alt
             = Inr ((False, ''Genesis block conflict, keeping our chain''), demo_bc2)"
    using fork_detection_and_resolution_table [OF ne, of demo_genesis_alt demo_digest]
    by (simp add: demo_defs)
  have f: "fork_detection_and_resolution demo_digest demo_bc2 demo_b1_alt
             = Inr ((False, ''Fork detected, need full chain comparison''), demo_bc2)"
    using fork_detection_and_resolution_table [OF ne, of demo_b1_alt demo_digest]
    by (simp add: demo_defs)
  from a b c d e f show ?thesis by simp
qed

text \<open>
  C10, as the code has it. The claim is that for every received block that is not a
  valid next block the call returns False and leaves the blockchain as it was. A block
  read from a dictionary can carry any integer as its index, and the subscripts
  \<open>chain[index]\<close> and \<open>chain[index - 1]\<close> are not guarded: on a chain of one block, a
  block with index -1 and another hash than the local block's reads \<open>chain[-1]\<close>, then
  \<open>chain[-2]\<close>, and the call raises \<open>IndexError\<close> instead of returning False.
\<close>

theorem fork_detection_and_resolution_raises:
  "chain demo_bc1 \<noteq> []
   \<and> index (demo_b1_alt\<lparr>index := - 1\<rparr>) \<noteq> int (length (chain demo_bc1))
   \<and> fork_detection_and_resolution demo_digest demo_bc1 (demo_b1_alt\<lparr>index := - 1\<rparr>)
       = Inl IndexError
   \<and> \<not> (\<exists>msg. fork_detection_and_resolution demo_digest demo_bc1 (demo_b1_alt\<lparr>index := - 1\<rparr>)
              = Inr ((False, msg), demo_bc1))"
  by (simp add: fork_detection_and_resolution_def demo_eval)

text \<open>
  C10, amended. \<open>fork_detection_and_resolution\<close> changes the blockchain in one case only:
  the index of the received block is the length of the chain and \<open>is_valid_block\<close>
  accepts it against the latest block; then exactly that block is appended, and the
  pending data and the difficulty are as before. For every other block with an index
  that is not negative, on a chain that is not empty, it returns False and the blockchain
  it was called on, also in the case outside the decision table: an index below the
  length and above 0, another hash than the local block's, and a previous hash that is
  not the hash of the local predecessor ("Unknown state in fork resolution"). Whatever
  the block, a blockchain it returns is the one it was given or that one with the block
  appended. It raises \<open>IndexError\<close>, before any change, exactly when the chain is empty
  and the index is at most 0, or the index is below \<open>-len(chain)\<close>, or the index is
  \<open>-len(chain)\<close> and the hash is not that of the first local block.
\<close>

theorem fork_detection_and_resolution_frame:
  "(chain bc \<noteq> [] \<and> index rb = int (length (chain bc))
      \<and> is_valid_block H bc rb (last (chain bc)) \<longrightarrow>
        (\<exists>msg. fork_detection_and_resolution H bc rb
                  = Inr ((True, msg), bc\<lparr>chain := chain bc @ [rb]\<rparr>)))
   \<and> (chain bc \<noteq> [] \<and> 0 \<le> index rb
      \<and> \<not> (index rb = int (length (chain bc)) \<and> is_valid_block H bc rb (last (chain bc))) \<longrightarrow>
        (\<exists>msg. fork_detection_and_resolution H bc rb = Inr ((False, msg), bc)))
   \<and> (index rb < int (length (chain bc)) \<and> 0 < index rb
        \<and> hash (chain bc ! nat (index rb)) \<noteq> hash rb
        \<and> previous_hash rb \<noteq> hash (chain bc ! nat (index rb - 1)) \<longrightarrow>
        fork_detection_and_resolution H bc rb
          = Inr ((False, ''Unknown state in fork resolution''), bc))
   \<and> (\<forall>r bc'. fork_detection_and_resolution H bc rb = Inr (r, bc') \<longrightarrow>
        (\<not> fst r \<and> bc' = bc)
        \<or> (fst r \<and> bc' = bc\<lparr>chain := chain bc @ [rb]\<rparr>
            \<and> pending_data bc' = pending_data bc \<and> difficulty bc' = difficulty bc
            \<and> index rb = int (length (chain bc)) \<and> chain bc \<noteq> []
            \<and> is_valid_block H bc rb (last (chain bc))))
   \<and> (fork_detection_and_resolution H bc rb = Inl IndexError \<longleftrightarrow>
        (chain bc = [] \<and> index rb \<le> 0)
        \<or> index rb < - int (length (chain bc))
        \<or> (chain bc \<noteq> [] \<and> index rb = - int (length (chain bc))
            \<and> hash (chain bc ! 0) \<noteq> hash rb))"
proof (intro conjI impI allI)
  assume "chain bc \<noteq> [] \<and> index rb = int (length (chain bc))
      \<and> is_valid_block H bc rb (last (chain bc))"
  then show "\<exists>msg. fork_detection_and_resolution H bc rb
                  = Inr ((True, msg), bc\<lparr>chain := chain bc @ [rb]\<rparr>)"
    by (simp add: fork_detection_and_resolution_def latest_block_nonempty)
next
  assume "chain bc \<noteq> [] \<and> 0 \<le> index rb
      \<and> \<not> (index rb = int (length (chain bc)) \<and> is_valid_block H bc rb (last (chain bc)))"
  then show "\<exists>msg. fork_detection_and_resolution H bc rb = Inr ((False, msg), bc)"
    by (simp add: fork_detection_and_resolution_def latest_block_nonempty py_index_nonneg)
next
  assume "index rb < int (length (chain bc)) \<and> 0 < index rb
        \<and> hash (chain bc ! nat (index rb)) \<noteq> hash rb
        \<and> previous_hash rb \<noteq> hash (chain bc ! nat (index rb - 1))"
  then show "fork_detection_and_resolution H bc rb
          = Inr ((False, ''Unknown state in fork resolution''), bc)"
    by (simp add: fork_detection_and_resolution_def py_index_nonneg)
next
  fix r bc'
  assume r: "fork_detection_and_resolution H bc rb = Inr (r, bc')"
  show "(\<not> fst r \<and> bc' = bc)
        \<or> (fst r \<and> bc' = bc\<lparr>chain := chain bc @ [rb]\<rparr>
            \<and> pending_data bc' = pending_data bc \<and> difficulty bc' = difficulty bc
            \<and> index rb = int (length (chain bc)) \<and> chain bc \<noteq> []
            \<and> is_valid_block H bc rb (last (chain bc)))"
  proof (cases "chain bc = []")
    case True
    with r show ?thesis
      by (auto simp add: fork_detection_and_resolution_def latest_block_def py_index_def
          split: if_splits)
  next
    case False
    with r show ?thesis
      by (auto simp add: fork_detection_and_resolution_def latest_block_nonempty
          split: if_splits sum.splits)
  qed
next
  show "fork_detection_and_resolution H bc rb = Inl IndexError \<longleftrightarrow>
        (chain bc = [] \<and> index rb \<le> 0)
        \<or> index rb < - int (length (chain bc))
        \<or> (chain bc \<noteq> [] \<and> index rb = - int (length (chain bc))
            \<and> hash (chain bc ! 0) \<noteq> hash rb)"
    by (rule fork_detection_and_resolution_raises_iff)
qed

theorem fork_detection_and_resolution_frame_witness:
  "(\<exists>msg. fork_detection_and_resolution demo_digest demo_bc2 demo_b2
            = Inr ((True, msg), demo_bc2\<lparr>chain := chain demo_bc2 @ [demo_b2]\<rparr>))
   \<and> (\<exists>msg. fork_detection_and_resolution demo_digest demo_bc2 demo_b1_alt
            = Inr ((False, msg), demo_bc2))
   \<and> fork_detection_and_resolution demo_digest demo_bc2
       (demo_b1_alt\<lparr>previous_hash := ''0az''\<rparr>)
     = Inr ((False, ''Unknown state in fork resolution''), demo_bc2)
   \<and> fork_detection_and_resolution demo_digest demo_bc2 (demo_b1_alt\<lparr>index := - 2\<rparr>)
     = Inl IndexError
   \<and> fork_detection_and_resolution demo_digest demo_bc2 (demo_b1_alt\<lparr>index := - 1\<rparr>)
     \<noteq> Inl IndexError"
proof -
  have a: "\<exists>msg. fork_detection_and_resolution demo_digest demo_bc2 demo_b2
            = Inr ((True, msg), demo_bc2\<lparr>chain := chain demo_bc2 @ [demo_b2]\<rparr>)"
    using fork_detection_and_resolution_frame [of demo_bc2 demo_b2 demo_digest]
    by (simp add: demo_eval)
  have b: "\<exists>msg. fork_detection_and_resolution demo_digest demo_bc2 demo_b1_alt
            = Inr ((False, msg), demo_bc2)"
    using fork_detection_and_resolution_frame [of demo_bc2 demo_b1_alt demo_digest]
    by (simp add: demo_defs)
  have c: "fork_detection_and_resolution demo_digest demo_bc2
             (demo_b1_alt\<lparr>previous_hash := ''0az''\<rparr>)
           = Inr ((False, ''Unknown state in fork resolution''), demo_bc2)"
    using fork_detection_and_resolution_frame
      [of demo_bc2 "demo_b1_alt\<lparr>previous_hash := ''0az''\<rparr>" demo_digest]
    by (simp add: demo_defs)
  have d: "fork_detection_and_resolution demo_digest demo_bc2 (demo_b1_alt\<lparr>index := - 2\<rparr>)
           = Inl IndexError"
    using fork_detection_and_resolution_frame
      [of demo_bc2 "demo_b1_alt\<lparr>index := - 2\<rparr>" demo_digest]
    by (simp add: demo_defs)
  have e: "fork_detection_and_resolution demo_digest demo_bc2 (demo_b1_alt\<lparr>index := - 1\<rparr>)
           \<noteq> Inl IndexError"
    using fork_detection_and_resolution_frame
      [of demo_bc2 "demo_b1_alt\<lparr>index := - 1\<rparr>" demo_digest]
    by (simp add: demo_defs)
  from a b c d e show ?thesis by simp
qed

section \<open>Synchronising with a competing chain\<close>

text \<open>
  C8. For \<open>0 \<le> sync_from_index < len(competing_chain)\<close> and
  \<open>sync_from_index < len(chain)\<close>, \<open>sync_missing_blocks\<close> takes the common ancestor \<open>a\<close>
  of the local chain and \<open>competing_chain[:sync_from_index + 1]\<close>. There is none (\<open>a = -1\<close>)
  exactly when the first blocks differ, and then it fails. Otherwise it replaces the local
  blocks after \<open>a\<close> by the competing blocks after \<open>a\<close> exactly when the chain work of the
  competing blocks after \<open>a\<close> is strictly greater than that of the local blocks after \<open>a\<close>,
  and leaves the blockchain as it was when not. The chain work of a segment is the sum
  over its blocks of 16 to the number of leading zeros of the hash.
\<close>

theorem sync_missing_blocks_fork_branch:
  fixes bc :: "'a blockchain"
  assumes "0 \<le> sync_from_index" and "sync_from_index < int (length competing_chain)"
    and "sync_from_index < int (length (chain bc))"
  shows
    "(let a = find_common_ancestor bc (take (nat sync_from_index + 1) competing_chain) in
        - 1 \<le> a \<and> a \<le> sync_from_index
        \<and> (a = - 1 \<longleftrightarrow> hash (chain bc ! 0) \<noteq> hash (competing_chain ! 0))
        \<and> sync_missing_blocks H bc competing_chain sync_from_index =
            (if a = - 1 then ((False, NoCommonAncestor), bc)
             else if calculate_chain_work (drop (nat a + 1) (chain bc))
                       < calculate_chain_work (drop (nat a + 1) competing_chain)
             then ((True, ChainReplacedAfterFork a),
                   bc\<lparr>chain := take (nat a + 1) (chain bc) @ drop (nat a + 1) competing_chain\<rparr>)
             else ((False, OurChainHasMoreWork), bc)))
     \<and> (\<forall>seg :: 'a block list.
          calculate_chain_work seg = (\<Sum>b\<leftarrow>seg. 16 ^ leading_zeros (hash b)))"
proof -
  define pre where "pre = take (nat sync_from_index + 1) competing_chain"
  define a where "a = find_common_ancestor bc pre"
  define n where "n = nat sync_from_index + 1"
  have up: "py_upto competing_chain (sync_from_index + 1) = pre"
    using assms(1) by (simp add: py_upto_def nat_add_distrib pre_def)
  have m: "min (length (chain bc)) (length pre) = n"
    using assms by (simp add: pre_def n_def)
  have a_loop: "a = ancestor_loop (chain bc) pre n 0"
    by (simp add: a_def find_common_ancestor_def m)
  have "int 0 - 1 \<le> ancestor_loop (chain bc) pre n 0
        \<and> ancestor_loop (chain bc) pre n 0 \<le> int n - 1"
    by (rule ancestor_loop_bounds) simp
  then have bounds: "- 1 \<le> a" "a \<le> sync_from_index"
    using assms(1) by (simp_all add: a_loop n_def)
  have "pre ! 0 = competing_chain ! 0"
    by (simp add: pre_def)
  then have none: "a = - 1 \<longleftrightarrow> hash (chain bc ! 0) \<noteq> hash (competing_chain ! 0)"
    using ancestor_loop_none_iff [of n "chain bc" pre] by (simp add: a_loop n_def)
  have sl: "py_from xs (a + 1) = drop (nat a + 1) xs"
    "py_upto xs (a + 1) = take (nat a + 1) xs" if "a \<noteq> - 1" for xs :: "'a block list"
    using bounds(1) that by (simp_all add: py_from_def py_upto_def nat_add_distrib)
  have run: "sync_missing_blocks H bc competing_chain sync_from_index =
            (if a = - 1 then ((False, NoCommonAncestor), bc)
             else if calculate_chain_work (drop (nat a + 1) (chain bc))
                       < calculate_chain_work (drop (nat a + 1) competing_chain)
             then ((True, ChainReplacedAfterFork a),
                   bc\<lparr>chain := take (nat a + 1) (chain bc) @ drop (nat a + 1) competing_chain\<rparr>)
             else ((False, OurChainHasMoreWork), bc))"
  proof (cases "a = - 1")
    case True
    with assms show ?thesis
      by (simp add: sync_missing_blocks_def up a_def [symmetric])
  next
    case False
    with assms show ?thesis
      by (simp add: sync_missing_blocks_def up a_def [symmetric] Let_def sl [OF False])
  qed
  from bounds none run show ?thesis
    unfolding Let_def a_def [symmetric] pre_def [symmetric]
    by (simp add: calculate_chain_work_sum)
qed

theorem sync_missing_blocks_fork_branch_witness:
  "sync_missing_blocks demo_digest demo_bc2 [demo_genesis, demo_b1_heavy] 1
     = ((True, ChainReplacedAfterFork 0), demo_bc2\<lparr>chain := [demo_genesis, demo_b1_heavy]\<rparr>)
   \<and> sync_missing_blocks demo_digest demo_bc2 [demo_genesis, demo_b1_alt] 1
     = ((False, OurChainHasMoreWork), demo_bc2)
   \<and> sync_missing_blocks demo_digest demo_bc2 [demo_genesis_alt, demo_b1_heavy] 1
     = ((False, NoCommonAncestor), demo_bc2)"
proof -
  note ev = Let_def demo_eval find_common_ancestor_def ancestor_loop.simps
    calculate_chain_work_def
  have a: "sync_missing_blocks demo_digest demo_bc2 [demo_genesis, demo_b1_heavy] 1
     = ((True, ChainReplacedAfterFork 0), demo_bc2\<lparr>chain := [demo_genesis, demo_b1_heavy]\<rparr>)"
    using sync_missing_blocks_fork_branch
      [of 1 "[demo_genesis, demo_b1_heavy]" demo_bc2 demo_digest]
    by (simp add: ev)
  have b: "sync_missing_blocks demo_digest demo_bc2 [demo_genesis, demo_b1_alt] 1
     = ((False, OurChainHasMoreWork), demo_bc2)"
    using sync_missing_blocks_fork_branch
      [of 1 "[demo_genesis, demo_b1_alt]" demo_bc2 demo_digest]
    by (simp add: ev)
  have c: "sync_missing_blocks demo_digest demo_bc2 [demo_genesis_alt, demo_b1_heavy] 1
     = ((False, NoCommonAncestor), demo_bc2)"
    using sync_missing_blocks_fork_branch
      [of 1 "[demo_genesis_alt, demo_b1_heavy]" demo_bc2 demo_digest]
    by (simp add: ev)
  from a b c show ?thesis by simp
qed

text \<open>
  C3. With \<open>sync_from_index \<ge> len(chain)\<close> the competing blocks from \<open>sync_from_index\<close> on
  are appended one by one, and a failed sync is meant to leave the local chain as it was
  at entry. The code checks each block against its predecessor in the competing chain and
  rolls back to \<open>chain[:sync_from_index]\<close>. On a local chain of one block and
  \<open>sync_from_index = 2\<close>, block 2 of the competing chain is appended, block 3 fails, and
  the rollback keeps two blocks: the failed sync returns False and leaves block 2 behind
  the genesis block.
\<close>

theorem sync_missing_blocks_failed_rollback:
  "int (length (chain demo_bc1)) \<le> 2
   \<and> (2::int) < int (length [demo_genesis, demo_b1, demo_b2, demo_b3_unmined])
   \<and> sync_missing_blocks demo_digest demo_bc1
         [demo_genesis, demo_b1, demo_b2, demo_b3_unmined] 2
       = ((False, InvalidBlockDuringSync 3), demo_bc1\<lparr>chain := [demo_genesis, demo_b2]\<rparr>)
   \<and> chain demo_bc1 = [demo_genesis]
   \<and> length (chain (snd (sync_missing_blocks demo_digest demo_bc1
         [demo_genesis, demo_b1, demo_b2, demo_b3_unmined] 2))) \<noteq> length (chain demo_bc1)"
  by (simp add: sync_missing_blocks_def sync_append_loop.simps demo_eval)

section \<open>Resolving a fork\<close>

text \<open>
  C5. \<open>resolve_fork\<close> returns once the scratch blockchains it builds are constructed, and
  it returns True exactly when the local chain has changed. When it returns False the
  blockchain is the one it was called on, and no candidate that validates from scratch is
  longer than the local chain. When it returns True the new chain is one of the
  candidates: it validates from scratch (first block with index 0 and the sentinel
  previous hash, every later block valid against its predecessor in the candidate), it is
  strictly longer than the original local chain, no candidate that validates is longer,
  and every candidate before it in the list that validates is strictly shorter: among
  the longest valid candidates the first one wins. A candidate of the length of the local
  chain is never installed.
\<close>

theorem resolve_fork_spec:
  "((\<forall>k<length cands. Blockchain_init H (difficulty bc) (clock k) \<noteq> None)
      \<longrightarrow> (\<exists>r. resolve_fork H clock bc cands = Some r))
   \<and> (\<forall>replaced bc'. resolve_fork H clock bc cands = Some (replaced, bc') \<longrightarrow>
        (replaced \<longleftrightarrow> chain bc' \<noteq> chain bc)
        \<and> (\<not> replaced \<longrightarrow>
              bc' = bc
              \<and> (\<forall>c\<in>set cands. validates_from_scratch H bc c \<longrightarrow> length c \<le> length (chain bc)))
        \<and> (replaced \<longrightarrow>
              (\<exists>pre c post. cands = pre @ c # post \<and> bc' = bc\<lparr>chain := c\<rparr>
                 \<and> length (chain bc) < length c \<and> validates_from_scratch H bc c
                 \<and> (\<forall>x\<in>set pre. validates_from_scratch H bc x \<longrightarrow> length x < length c)
                 \<and> (\<forall>x\<in>set post. validates_from_scratch H bc x \<longrightarrow> length x \<le> length c))))"
proof (intro conjI allI impI, goal_cases)
  case 1
  then show ?case by (rule resolve_fork_returns)
next
  case (2 replaced bc')
  have differs: "chain bc' \<noteq> chain bc" if "bc' = bc\<lparr>chain := c\<rparr>" "length (chain bc) < length c" for c
    using that by auto
  from resolve_fork_result [OF 2] differs show ?case
    by (elim disjE conjE) (simp, blast)
next
  case (3 replaced bc')
  from resolve_fork_result [OF 3(1)] 3(2) show ?case by blast
next
  case (4 replaced bc')
  from resolve_fork_result [OF 4(1)] 4(2) show ?case by blast
next
  case (5 replaced bc')
  from resolve_fork_result [OF 5(1)] 5(2) show ?case by blast
qed

theorem resolve_fork_spec_witness:
  "(\<exists>r. resolve_fork demo_digest demo_clock demo_bc2
           [[demo_genesis, demo_b1, demo_b2], [demo_genesis, demo_b1, demo_b2, demo_b3],
            [demo_genesis, demo_b1, demo_b2, demo_b3_alt]] = Some r)
   \<and> resolve_fork demo_digest demo_clock demo_bc2
        [[demo_genesis, demo_b1, demo_b2], [demo_genesis, demo_b1, demo_b2, demo_b3],
         [demo_genesis, demo_b1, demo_b2, demo_b3_alt]]
      = Some (True, demo_bc2\<lparr>chain := [demo_genesis, demo_b1, demo_b2, demo_b3]\<rparr>)
   \<and> chain (demo_bc2\<lparr>chain := [demo_genesis, demo_b1, demo_b2, demo_b3]\<rparr>) \<noteq> chain demo_bc2
   \<and> resolve_fork demo_digest demo_clock demo_bc2
        [[demo_genesis, demo_b1_alt], [demo_genesis, demo_b1_heavy]]
      = Some (False, demo_bc2)"
proof -
  let ?cands = "[[demo_genesis, demo_b1, demo_b2], [demo_genesis, demo_b1, demo_b2, demo_b3],
                 [demo_genesis, demo_b1, demo_b2, demo_b3_alt]]"
  have init: "Blockchain_init demo_digest (difficulty demo_bc2) (demo_clock k) \<noteq> None" for k
    by (simp add: demo_defs demo_Blockchain_init)
  then have "\<forall>k<length ?cands.
      Blockchain_init demo_digest (difficulty demo_bc2) (demo_clock k) \<noteq> None"
    by blast
  with resolve_fork_spec [of ?cands demo_digest demo_bc2 demo_clock]
  have a: "\<exists>r. resolve_fork demo_digest demo_clock demo_bc2 ?cands = Some r"
    by blast
  have b: "resolve_fork demo_digest demo_clock demo_bc2 ?cands
      = Some (True, demo_bc2\<lparr>chain := [demo_genesis, demo_b1, demo_b2, demo_b3]\<rparr>)"
    by (simp add: resolve_fork_def demo_Blockchain_init candidate_is_valid_def
        validate_loop.simps demo_eval)
  with resolve_fork_spec [of ?cands demo_digest demo_bc2 demo_clock]
  have c: "chain (demo_bc2\<lparr>chain := [demo_genesis, demo_b1, demo_b2, demo_b3]\<rparr>) \<noteq> chain demo_bc2"
    by blast
  have d: "resolve_fork demo_digest demo_clock demo_bc2
        [[demo_genesis, demo_b1_alt], [demo_genesis, demo_b1_heavy]]
      = Some (False, demo_bc2)"
    by (simp add: resolve_fork_def demo_bc2_def)
  from a b c d show ?thesis by blast
qed

section \<open>The structural invariant\<close>

text \<open>
  C1, as the code has it. The claim is that every operation that changes the block
  sequence keeps the structural invariant. \<open>sync_missing_blocks\<close> does not: in its fork
  branch it installs the competing blocks after the common ancestor on the strength of
  their chain work alone, without validating them. \<open>replace_chain\<close> does not check the
  index of the first block of the candidate. Both are shown on concrete chains.
\<close>

theorem chain_invariant_not_preserved:
  "chain_invariant demo_bc2
   \<and> sync_missing_blocks demo_digest demo_bc2 [demo_genesis, demo_junk] 1
       = ((True, ChainReplacedAfterFork 0), demo_bc2\<lparr>chain := [demo_genesis, demo_junk]\<rparr>)
   \<and> \<not> chain_invariant (snd (sync_missing_blocks demo_digest demo_bc2 [demo_genesis, demo_junk] 1))
   \<and> chain_invariant demo_bc1
   \<and> replace_chain demo_digest demo_bc1 [demo_s5, demo_s6]
       = (True, demo_bc1\<lparr>chain := [demo_s5, demo_s6]\<rparr>)
   \<and> \<not> chain_invariant (snd (replace_chain demo_digest demo_bc1 [demo_s5, demo_s6]))"
  by (simp add: chain_invariant_def sync_missing_blocks_def replace_chain_def is_valid_chain_def
      Let_def demo_eval find_common_ancestor_def ancestor_loop.simps calculate_chain_work_def
      leading_zeros_def upt_conv_Cons)

text \<open>
  C1, amended. From a blockchain that satisfies the structural invariant (not empty,
  block \<open>i\<close> has index \<open>i\<close>, every later block links to the hash of its predecessor and has
  at least \<open>difficulty\<close> leading zeros), \<open>mine_pending_data\<close>, \<open>add_block\<close>,
  \<open>fork_detection_and_resolution\<close> and \<open>resolve_fork\<close> return a blockchain that satisfies
  it, and so does \<open>replace_chain\<close> when the first block of the candidate has index 0. The
  constructor returns a blockchain that satisfies it. Nothing is said of
  \<open>sync_missing_blocks\<close>.
\<close>

theorem chain_invariant_preserved:
  assumes "chain_invariant bc"
  shows
    "(\<forall>r bc'. mine_pending_data H now miner_address bc = Some (Inr (r, bc')) \<longrightarrow> chain_invariant bc')
     \<and> (\<forall>ok bc'. add_block H bc b = Inr (ok, bc') \<longrightarrow> chain_invariant bc')
     \<and> (\<forall>res bc'. fork_detection_and_resolution H bc rb = Inr (res, bc') \<longrightarrow> chain_invariant bc')
     \<and> (\<forall>ok bc'. resolve_fork H clock bc cands = Some (ok, bc') \<longrightarrow> chain_invariant bc')
     \<and> (index (new_chain ! 0) = 0 \<longrightarrow> chain_invariant (snd (replace_chain H bc new_chain)))
     \<and> (\<forall>bc0. Blockchain_init H d t0 = Some bc0 \<longrightarrow> chain_invariant bc0)"
proof (intro conjI allI impI, goal_cases)
  case (1 r bc')
  with assms show ?case by (rule mine_pending_data_invariant)
next
  case (2 ok bc')
  with assms show ?case by (rule add_block_invariant)
next
  case (3 res bc')
  with assms show ?case by (rule fork_detection_and_resolution_invariant)
next
  case (4 ok bc')
  with assms show ?case by (rule resolve_fork_invariant)
next
  case 5
  with assms show ?case by (rule replace_chain_invariant)
next
  case (6 bc0)
  then show ?case by (rule Blockchain_init_invariant)
qed

theorem chain_invariant_preserved_witness:
  "chain_invariant demo_bc1
   \<and> chain_invariant (demo_bc1\<lparr>chain := chain demo_bc1 @ [demo_b1], pending_data := []\<rparr>)
   \<and> chain_invariant (demo_bc1\<lparr>chain := chain demo_bc1 @ [demo_b1]\<rparr>)
   \<and> chain_invariant (snd (replace_chain demo_digest demo_bc1 [demo_genesis, demo_b1, demo_b2]))"
proof -
  have inv: "chain_invariant demo_bc1"
    by (simp add: chain_invariant_def demo_eval leading_zeros_def)
  note kept = chain_invariant_preserved [OF inv, where H = demo_digest]
  have "mine_pending_data demo_digest 1 ''x'' demo_bc1
      = Some (Inr (Some demo_b1, demo_bc1\<lparr>chain := chain demo_bc1 @ [demo_b1], pending_data := []\<rparr>))"
    by (simp add: mine_pending_data_def latest_block_def mine_block.simps Block_init_def
        meets_target_def demo_eval)
  with kept [where now = 1 and miner_address = "''x''"]
  have a: "chain_invariant (demo_bc1\<lparr>chain := chain demo_bc1 @ [demo_b1], pending_data := []\<rparr>)"
    by blast
  have "add_block demo_digest demo_bc1 demo_b1
      = Inr (True, demo_bc1\<lparr>chain := chain demo_bc1 @ [demo_b1]\<rparr>)"
    by (simp add: add_block_def latest_block_def demo_eval)
  with kept [where b = demo_b1]
  have b: "chain_invariant (demo_bc1\<lparr>chain := chain demo_bc1 @ [demo_b1]\<rparr>)"
    by blast
  have "index ([demo_genesis, demo_b1, demo_b2] ! 0) = 0"
    by (simp add: demo_defs)
  with kept [where new_chain = "[demo_genesis, demo_b1, demo_b2]"]
  have c: "chain_invariant (snd (replace_chain demo_digest demo_bc1 [demo_genesis, demo_b1, demo_b2]))"
    by blast
  from inv a b c show ?thesis by blast
qed

end
